theory Spec2Isabelle
  imports Complex_Main "HOL-Library.Sublist" "HOL-Library.Log_Nat"
begin

section \<open>OpenCaption: chunked transcription stitching and caption-cue assembly\<close>

text \<open>
  A shallow embedding of \<^verbatim>\<open>src/main.go\<close>.

  Conventions of the embedding.
  \<^item> A Go \<^verbatim>\<open>string\<close> is a byte sequence: \<open>string\<close> (\<open>char list\<close>), \<^verbatim>\<open>len\<close> is
    \<open>length\<close>, \<^verbatim>\<open>s[:n]\<close> is \<open>take n s\<close> and panics outside \<open>0 .. len(s)\<close>.
  \<^item> Go's \<^verbatim>\<open>int\<close> is the 64-bit two's complement integer of the 64-bit platforms: a
    value is an \<open>int\<close> in \<open>-2^63 ..< 2^63\<close>, and where a product, sum or difference of
    the inputs can leave that range (the sample arithmetic of \<^verbatim>\<open>chunkPCM\<close>, the stride
    \<^verbatim>\<open>win - ovl\<close> of \<^verbatim>\<open>main\<close>) it wraps around (\<open>wrapInt\<close>). Lengths, line counts and
    cue indices stay far inside the range and are plain integers. (A 32-bit build wraps
    at \<open>2^31\<close> instead; it is not modelled.)
  \<^item> A finite \<^verbatim>\<open>float32\<close> or \<^verbatim>\<open>float64\<close> value is the \<open>real\<close> number it denotes. A
    \<^verbatim>\<open>float32\<close> addition or subtraction, and a conversion of an integer to \<^verbatim>\<open>float32\<close>,
    is the exact result rounded to the nearest \<^verbatim>\<open>float32\<close>, ties to even (\<open>f32\<close>);
    likewise \<open>f64\<close> for \<^verbatim>\<open>float64\<close>. The conversion of a \<^verbatim>\<open>float32\<close> to \<^verbatim>\<open>float64\<close> and
    comparisons are exact. Infinities, NaN, the sign of zero and results beyond the
    largest finite value are outside the model.
  \<^item> A panic (slice bounds out of range) and a call of \<^verbatim>\<open>fail\<close> (which exits the process)
    are values \<open>Inl e\<close> of a sum type.
  \<^item> The library functions \<^verbatim>\<open>strings.Fields\<close>, \<^verbatim>\<open>strings.TrimSpace\<close>, \<^verbatim>\<open>strings.Join\<close> and
    \<^verbatim>\<open>strings.LastIndex\<close> are modelled on bytes, white space being the six ASCII
    white-space characters (Go additionally treats the multi-byte encodings of U+0085,
    U+00A0 and of the other Unicode spaces as white space; texts containing those are
    outside the model).
\<close>

datatype error =
    SliceBounds                   \<comment> \<open>runtime panic: slice bounds out of range\<close>
  | WindowNotGreaterThanOverlap   \<comment> \<open>\<^verbatim>\<open>fail(errors.New("window must be > overlap"))\<close>\<close>
  | ChunkFailed nat               \<comment> \<open>\<^verbatim>\<open>fail(fmt.Errorf("chunk %d: %w", i, err))\<close>\<close>
  | TranscribeFailed              \<comment> \<open>\<^verbatim>\<open>fail(err)\<close> in whole-file mode\<close>
  | OutOfMemory                   \<comment> \<open>a loop that appends for ever\<close>

subsection \<open>Machine arithmetic\<close>

text \<open>The value a 64-bit signed integer takes for the exact result \<open>x\<close>.\<close>

definition wrapInt :: "int \<Rightarrow> int" where
  "wrapInt x = (x + 2 ^ 63) mod 2 ^ 64 - 2 ^ 63"

text \<open>
  Binary floating point. \<open>pow2 k\<close> is \<open>2^k\<close> for an integer \<open>k\<close>; \<open>expo x\<close> is the
  exponent of \<open>x \<noteq> 0\<close>, the \<open>k\<close> with \<open>2^k \<le> |x| < 2^(k+1)\<close>; \<open>roundHalfEven\<close> rounds
  to the nearest integer, a tie to the even one. \<open>roundFloat p emin x\<close> rounds \<open>x\<close> to
  \<open>p\<close> significant bits, or to a multiple of \<open>2^(emin - p + 1)\<close> in the subnormal range.
\<close>

definition pow2 :: "int \<Rightarrow> real" where
  "pow2 k = (if k \<ge> 0 then 2 ^ nat k else 1 / 2 ^ nat (- k))"

definition expo :: "real \<Rightarrow> int" where
  "expo x = (if \<bar>x\<bar> \<ge> 1 then bitlen \<lfloor>\<bar>x\<bar>\<rfloor> - 1 else - bitlen (\<lceil>1 / \<bar>x\<bar>\<rceil> - 1))"

definition roundHalfEven :: "real \<Rightarrow> int" where
  "roundHalfEven x =
     (let f = \<lfloor>x\<rfloor>; r = x - of_int f
      in if r < 1 / 2 then f else if r > 1 / 2 then f + 1 else if even f then f else f + 1)"

definition roundFloat :: "nat \<Rightarrow> int \<Rightarrow> real \<Rightarrow> real" where
  "roundFloat p emin x =
     (if x = 0 then 0
      else (let e = max (expo x) emin; ulp = pow2 (e - int p + 1)
            in of_int (roundHalfEven (x / ulp)) * ulp))"

definition f32 :: "real \<Rightarrow> real" where
  "f32 x = roundFloat 24 (- 126) x"

definition f64 :: "real \<Rightarrow> real" where
  "f64 x = roundFloat 53 (- 1022) x"

subsection \<open>Library functions on strings\<close>

definition isSpace :: "char \<Rightarrow> bool" where
  "isSpace c \<longleftrightarrow> c \<in> {CHR 0x09, CHR 0x0A, CHR 0x0B, CHR 0x0C, CHR 0x0D, CHR '' ''}"

text \<open>\<^verbatim>\<open>strings.Fields\<close>: the maximal runs of non-space bytes, in order.\<close>

fun fieldsFrom :: "string \<Rightarrow> string \<Rightarrow> string list" where
  "fieldsFrom cur [] = (if cur = [] then [] else [cur])"
| "fieldsFrom cur (c # cs) =
     (if isSpace c then (if cur = [] then fieldsFrom [] cs else cur # fieldsFrom [] cs)
      else fieldsFrom (cur @ [c]) cs)"

definition Fields :: "string \<Rightarrow> string list" where
  "Fields s = fieldsFrom [] s"

definition TrimSpace :: "string \<Rightarrow> string" where
  "TrimSpace s = rev (dropWhile isSpace (rev (dropWhile isSpace s)))"

text \<open>\<^verbatim>\<open>strings.Join(elems, " ")\<close>.\<close>

fun Join :: "string list \<Rightarrow> string" where
  "Join [] = []"
| "Join [w] = w"
| "Join (w # v # ws) = w @ '' '' @ Join (v # ws)"

text \<open>\<^verbatim>\<open>strings.LastIndex(s, " ")\<close>: the index of the last space of \<open>s\<close>, or \<open>-1\<close>.\<close>

definition LastIndex :: "string \<Rightarrow> int" where
  "LastIndex s =
     (if CHR '' '' \<in> set s
      then int (length s) - 1 - int (length (takeWhile (\<lambda>c. c \<noteq> CHR '' '') (rev s)))
      else - 1)"

subsection \<open>Word wrapping\<close>

definition fieldsPreservePunct :: "string \<Rightarrow> string list" where
  "fieldsPreservePunct s = Fields s"

text \<open>
  \<^verbatim>\<open>wordsJoinRemaining(all, from)\<close>: the loop with its flag \<^verbatim>\<open>found\<close>. The words after
  the first word equal to \<open>from\<close> are collected in order.
\<close>

fun wordsJoinRemainingLoop :: "string \<Rightarrow> bool \<Rightarrow> string list \<Rightarrow> string list" where
  "wordsJoinRemainingLoop from found [] = []"
| "wordsJoinRemainingLoop from found (w # ws) =
     (if \<not> found \<and> w = from then wordsJoinRemainingLoop from True ws
      else if found then w # wordsJoinRemainingLoop from found ws
      else wordsJoinRemainingLoop from found ws)"

definition wordsJoinRemaining :: "string list \<Rightarrow> string \<Rightarrow> string list" where
  "wordsJoinRemaining all from = wordsJoinRemainingLoop from False all"

definition softTruncate :: "string \<Rightarrow> int \<Rightarrow> error + string" where
  "softTruncate s mx =
     (if int (length s) \<le> mx then Inr s
      else if mx < 0 then Inl SliceBounds
      else (let idx = LastIndex (take (nat mx) s)
            in if idx > 0 then Inr (take (nat idx) s) else Inr (take (nat mx) s)))"

text \<open>\<^verbatim>\<open>if len(lines) > maxLines { lines = lines[:maxLines] }\<close>\<close>

definition capLines :: "string list \<Rightarrow> int \<Rightarrow> error + string list" where
  "capLines lines maxLines =
     (if int (length lines) > maxLines
      then (if maxLines < 0 then Inl SliceBounds else Inr (take (nat maxLines) lines))
      else Inr lines)"

text \<open>
  The loop of \<^verbatim>\<open>wrapWords\<close> over the words still to be read, with the loop state
  \<open>lines\<close>, \<open>cur\<close>; \<open>words\<close> is the whole word list (read by
  \<^verbatim>\<open>wordsJoinRemaining\<close>).
\<close>

fun wrapLoop :: "string list \<Rightarrow> int \<Rightarrow> int \<Rightarrow> string list \<Rightarrow> string \<Rightarrow> string list
    \<Rightarrow> error + string list" where
  "wrapLoop words maxChars maxLines lines cur [] =
     capLines (if cur \<noteq> [] then lines @ [cur] else lines) maxLines"
| "wrapLoop words maxChars maxLines lines cur (w # ws) =
     (if cur = [] then wrapLoop words maxChars maxLines lines w ws
      else if int (length cur) + 1 + int (length w) \<le> maxChars
      then wrapLoop words maxChars maxLines lines (cur @ '' '' @ w) ws
      else (let lines' = lines @ [cur]; cur' = w
            in if int (length lines') = maxLines - 1
               then (let rest = Join (wordsJoinRemaining words w)
                     in if rest \<noteq> []
                        then (case softTruncate
                                     (if length cur' > 0 then cur' @ '' '' @ rest else cur')
                                     maxChars of
                                Inl e \<Rightarrow> Inl e
                              | Inr t \<Rightarrow> capLines (lines' @ [t]) maxLines)
                        else capLines lines' maxLines)
               else wrapLoop words maxChars maxLines lines' cur' ws))"

definition wrapWords :: "string \<Rightarrow> int \<Rightarrow> int \<Rightarrow> error + string list" where
  "wrapWords s maxChars maxLines =
     (let words = fieldsPreservePunct s
      in wrapLoop words maxChars maxLines [] [] words)"

text \<open>
  The two kinds of line the wrapper produces, for the statement of its invariants: a
  packed line consists of whole words of the text joined by single spaces, and is within
  the budget unless it is a single word; a cut line is the documented fall-back of the
  soft truncation, the first \<open>maxChars\<close> bytes of a word.
\<close>

definition packedLine :: "string list \<Rightarrow> int \<Rightarrow> string \<Rightarrow> bool" where
  "packedLine words maxChars l \<longleftrightarrow>
     (\<exists>us. us \<noteq> [] \<and> set us \<subseteq> set words \<and> l = Join us \<and>
           (int (length l) \<le> maxChars \<or> length us = 1))"

definition cutLine :: "string list \<Rightarrow> int \<Rightarrow> string \<Rightarrow> bool" where
  "cutLine words maxChars l \<longleftrightarrow>
     int (length l) = maxChars \<and> CHR '' '' \<notin> set l \<and> (\<exists>w\<in>set words. prefix l w)"

subsection \<open>Segments and cues\<close>

text \<open>The fields of \<^verbatim>\<open>whisper.Segment\<close> that the program reads.\<close>

record Segment =
  Start :: real
  End :: real
  Text :: string

record Cue =
  Idx :: int
  CStart :: real
  CEnd :: real
  Lines :: "string list"
  RawText :: string

text \<open>
  The main loop of \<^verbatim>\<open>mergeShortCues\<close> on the cues from index \<open>i\<close> on: a cue that is
  long enough, or the last one, is kept; a short one is merged with the next, which is
  then skipped. The duration is the \<^verbatim>\<open>float32\<close> difference \<^verbatim>\<open>c.End - c.Start\<close>, compared
  as a \<^verbatim>\<open>float64\<close> with \<open>minDur\<close>.
\<close>

fun mergeLoop :: "real \<Rightarrow> Cue list \<Rightarrow> error + Cue list" where
  "mergeLoop minDur [] = Inr []"
| "mergeLoop minDur [c] = Inr [c]"
| "mergeLoop minDur (c # next # rest) =
     (if f32 (CEnd c - CStart c) \<ge> minDur
      then (case mergeLoop minDur (next # rest) of
              Inl e \<Rightarrow> Inl e
            | Inr out \<Rightarrow> Inr (c # out))
      else (case wrapWords (TrimSpace (RawText c @ '' '' @ RawText next)) 42 2 of
              Inl e \<Rightarrow> Inl e
            | Inr ls \<Rightarrow>
               (case mergeLoop minDur rest of
                  Inl e \<Rightarrow> Inl e
                | Inr out \<Rightarrow>
                    Inr (\<lparr>Idx = Idx c, CStart = CStart c, CEnd = CEnd next, Lines = ls,
                          RawText = TrimSpace (RawText c @ '' '' @ RawText next)\<rparr> # out))))"

text \<open>\<^verbatim>\<open>for i := range out { out[i].Idx = i + 1 }\<close>, from position \<open>i\<close> on.\<close>

fun reindexFrom :: "int \<Rightarrow> Cue list \<Rightarrow> Cue list" where
  "reindexFrom i [] = []"
| "reindexFrom i (c # cs) = c\<lparr>Idx := i + 1\<rparr> # reindexFrom (i + 1) cs"

definition mergeShortCues :: "Cue list \<Rightarrow> real \<Rightarrow> error + Cue list" where
  "mergeShortCues cues minDur =
     (if length cues < 2 then Inr cues
      else (case mergeLoop minDur cues of
              Inl e \<Rightarrow> Inl e
            | Inr out \<Rightarrow> Inr (reindexFrom 0 out)))"

text \<open>The loop of \<^verbatim>\<open>segmentsToCues\<close> with its counter \<open>idx\<close>.\<close>

fun buildCues :: "int \<Rightarrow> int \<Rightarrow> int \<Rightarrow> Segment list \<Rightarrow> error + Cue list" where
  "buildCues maxChars maxLines idx [] = Inr []"
| "buildCues maxChars maxLines idx (s # ss) =
     (case wrapWords (Text s) maxChars maxLines of
        Inl e \<Rightarrow> Inl e
      | Inr lines \<Rightarrow>
          if length lines = 0 then buildCues maxChars maxLines idx ss
          else (case buildCues maxChars maxLines (idx + 1) ss of
                  Inl e \<Rightarrow> Inl e
                | Inr cues \<Rightarrow>
                    Inr (\<lparr>Idx = idx, CStart = Start s, CEnd = End s, Lines = lines,
                          RawText = Text s\<rparr> # cues)))"

definition segmentsToCues :: "Segment list \<Rightarrow> int \<Rightarrow> int \<Rightarrow> error + Cue list" where
  "segmentsToCues segs maxChars maxLines =
     (case buildCues maxChars maxLines 1 segs of
        Inl e \<Rightarrow> Inl e
      | Inr cues \<Rightarrow> mergeShortCues cues (f64 (6 / 10)))"

subsection \<open>Chunking\<close>

text \<open>\<^verbatim>\<open>pcm[start:end]\<close> for \<open>0 \<le> start \<le> end \<le> len(pcm)\<close>.\<close>

definition slice :: "'a list \<Rightarrow> int \<Rightarrow> int \<Rightarrow> 'a list" where
  "slice pcm start end = take (nat (end - start)) (drop (nat start) pcm)"

text \<open>
  The loop of \<^verbatim>\<open>chunkPCM\<close> from the value \<open>start\<close> of its counter on. The sums
  \<^verbatim>\<open>start + win\<close> and \<^verbatim>\<open>start += (win - ovl)\<close> are machine additions. Slicing with a
  negative \<open>start\<close> or with \<open>end < start\<close> panics. When the stride \<^verbatim>\<open>win - ovl\<close> is zero
  and the chunk does not reach the end of the buffer, the loop appends the same chunk for
  ever (until memory is exhausted). When the stride is negative the counter decreases
  until the slice panics.
\<close>

function chunkLoop :: "'a list \<Rightarrow> int \<Rightarrow> int \<Rightarrow> int \<Rightarrow> error + 'a list list" where
  "chunkLoop pcm win ovl start =
     (if start < int (length pcm)
      then (let end = (if wrapInt (start + win) > int (length pcm) then int (length pcm)
                       else wrapInt (start + win))
            in if start < 0 \<or> end < start then Inl SliceBounds
               else if end = int (length pcm) then Inr [slice pcm start end]
               else if wrapInt (win - ovl) = 0 then Inl OutOfMemory
               else (case chunkLoop pcm win ovl (wrapInt (start + wrapInt (win - ovl))) of
                       Inl e \<Rightarrow> Inl e
                     | Inr out \<Rightarrow> Inr (slice pcm start end # out)))
      else Inr [])"
  by pat_completeness auto
termination
proof (relation "measure (\<lambda>(pcm, win, ovl, start).
        if start < 0 then 0
        else if 2 ^ 63 \<le> start then 2 ^ 63 + 1
        else if wrapInt (win - ovl) > 0 then nat (2 ^ 63 - start)
        else nat (start + 1))", goal_cases)
  case 1
  show ?case by simp
next
  case (2 pcm win ovl start x)
  define step where "step = wrapInt (win - ovl)"
  define s' where "s' = wrapInt (start + step)"
  have st: "0 \<le> start" "step \<noteq> 0" using 2 by (simp_all add: step_def)
  have rs: "- (2 ^ 63) \<le> step" "step < 2 ^ 63" by (simp_all add: step_def wrapInt_def)
  have r': "- (2 ^ 63) \<le> s'" "s' < 2 ^ 63" by (simp_all add: s'_def wrapInt_def)
  have "(if s' < 0 then 0
         else if 2 ^ 63 \<le> s' then 2 ^ 63 + 1
         else if step > 0 then nat (2 ^ 63 - s') else nat (s' + 1))
      < (if start < 0 then 0
         else if 2 ^ 63 \<le> start then 2 ^ 63 + 1
         else if step > 0 then nat (2 ^ 63 - start) else nat (start + 1))"
  proof (cases "2 ^ 63 \<le> start")
    case True
    then show ?thesis using st r' by auto
  next
    case False
    show ?thesis
    proof (cases "step > 0")
      case True
      show ?thesis
      proof (cases "start + step < 2 ^ 63")
        case T2: True
        then have "s' = start + step" using st True by (simp add: s'_def wrapInt_def)
        then show ?thesis using st True False T2 by simp
      next
        case F2: False
        define x where "x = start + step + 2 ^ 63"
        have a: "0 \<le> x - 2 ^ 64" "x - 2 ^ 64 < 2 ^ 64"
          using F2 False rs by (simp_all add: x_def)
        have "x mod 2 ^ 64 = (x - 2 ^ 64) mod 2 ^ 64"
          by (simp only: minus_mod_self2)
        also have "\<dots> = x - 2 ^ 64"
          using a by (rule mod_pos_pos_trivial)
        finally have "s' = start + step - 2 ^ 64"
          by (simp add: s'_def wrapInt_def x_def)
        then have "s' < 0" using rs False by simp
        then show ?thesis using st False True by simp
      qed
    next
      case F1: False
      then have neg: "step < 0" using st by simp
      have "s' = start + step" using st rs False neg by (simp add: s'_def wrapInt_def)
      then show ?thesis using st False neg by simp
    qed
  qed
  then show ?case unfolding step_def s'_def by (simp only: in_measure prod.case)
qed

declare chunkLoop.simps [simp del]

text \<open>\<^verbatim>\<open>win := windowSec * sr\<close> and \<^verbatim>\<open>ovl := overlapSec * sr\<close> are machine products.\<close>

definition chunkPCM :: "'a list \<Rightarrow> int \<Rightarrow> int \<Rightarrow> int \<Rightarrow> error + 'a list list" where
  "chunkPCM pcm sr windowSec overlapSec =
     (let win = wrapInt (windowSec * sr); ovl = wrapInt (overlapSec * sr)
      in if win \<le> 0 then Inr [pcm] else chunkLoop pcm win ovl 0)"

text \<open>
  The windows of the specification: chunk \<open>k\<close> starts at sample
  \<open>k * (windowSec - overlapSec) * sampleRate\<close> and has \<open>windowSec * sampleRate\<close> samples,
  clipped to the end of a buffer of \<open>len\<close> samples.
\<close>

definition chunkStart :: "int \<Rightarrow> int \<Rightarrow> int \<Rightarrow> nat \<Rightarrow> int" where
  "chunkStart sr windowSec overlapSec k = int k * ((windowSec - overlapSec) * sr)"

definition chunkEnd :: "int \<Rightarrow> int \<Rightarrow> int \<Rightarrow> int \<Rightarrow> nat \<Rightarrow> int" where
  "chunkEnd len sr windowSec overlapSec k =
     min (chunkStart sr windowSec overlapSec k + windowSec * sr) len"

subsection \<open>Overlap de-duplication\<close>

text \<open>
  The loop of \<^verbatim>\<open>dedupeOverlap\<close> over \<^verbatim>\<open>segs[1:]\<close>; \<open>out\<close> is never empty, and
  \<^verbatim>\<open>out[len(out)-1]\<close> is \<open>last out\<close>. The test is
  \<^verbatim>\<open>math.Abs(float64(prev.Start-cur.Start)) < float64(overlap)+0.2\<close>: a \<^verbatim>\<open>float32\<close>
  subtraction on the left, on the right the \<^verbatim>\<open>float64\<close> sum of \<open>overlap\<close> and the
  \<^verbatim>\<open>float64\<close> constant nearest to 0.2.
\<close>

fun dedupeLoop :: "real \<Rightarrow> Segment list \<Rightarrow> Segment list \<Rightarrow> Segment list" where
  "dedupeLoop overlap out [] = out"
| "dedupeLoop overlap out (cur # rest) =
     (let prev = last out
      in if TrimSpace (Text prev) = TrimSpace (Text cur) \<and>
            \<bar>f32 (Start prev - Start cur)\<bar> < f64 (overlap + f64 (2 / 10))
         then dedupeLoop overlap out rest
         else dedupeLoop overlap (out @ [cur]) rest)"

definition dedupeOverlap :: "Segment list \<Rightarrow> real \<Rightarrow> Segment list" where
  "dedupeOverlap segs overlap =
     (if length segs < 2 then segs else dedupeLoop overlap [hd segs] (tl segs))"

text \<open>
  The rule of the specification: scanning left to right with a running last-kept
  segment, a candidate that is a duplicate of the last kept one is dropped, every other
  one is kept and becomes the last kept one. The first segment is never dropped. The rule
  is stated for any test \<open>dup kept cand\<close> of being a duplicate.
\<close>

fun dedupeFrom :: "(Segment \<Rightarrow> Segment \<Rightarrow> bool) \<Rightarrow> Segment \<Rightarrow> Segment list \<Rightarrow> Segment list" where
  "dedupeFrom dup kept [] = []"
| "dedupeFrom dup kept (cand # rest) =
     (if dup kept cand then dedupeFrom dup kept rest
      else cand # dedupeFrom dup cand rest)"

definition dedupeSpec :: "(Segment \<Rightarrow> Segment \<Rightarrow> bool) \<Rightarrow> Segment list \<Rightarrow> Segment list" where
  "dedupeSpec dup segs =
     (case segs of [] \<Rightarrow> [] | s # rest \<Rightarrow> s # dedupeFrom dup s rest)"

text \<open>
  The test in the words of the specification: the trimmed texts are equal and the
  absolute difference of the start times is less than \<open>overlapSeconds + 0.2\<close>.
\<close>

definition isDuplicate :: "real \<Rightarrow> Segment \<Rightarrow> Segment \<Rightarrow> bool" where
  "isDuplicate overlap kept cand \<longleftrightarrow>
     TrimSpace (Text cand) = TrimSpace (Text kept) \<and>
     \<bar>Start cand - Start kept\<bar> < overlap + 2 / 10"

text \<open>
  The same test in the arithmetic of the program: the difference of the start times is
  the \<^verbatim>\<open>float32\<close> difference, the bound is the \<^verbatim>\<open>float64\<close> sum of \<open>overlapSeconds\<close> and the
  \<^verbatim>\<open>float64\<close> nearest to 0.2.
\<close>

definition isDuplicateFloat :: "real \<Rightarrow> Segment \<Rightarrow> Segment \<Rightarrow> bool" where
  "isDuplicateFloat overlap kept cand \<longleftrightarrow>
     TrimSpace (Text cand) = TrimSpace (Text kept) \<and>
     \<bar>f32 (Start kept - Start cand)\<bar> < f64 (overlap + f64 (2 / 10))"

subsection \<open>Transcription and the driver\<close>

text \<open>
  The speech recogniser is outside the program: \<open>engine pcm\<close> is \<open>None\<close> when
  \<^verbatim>\<open>ctx.Process\<close> fails on the buffer, and otherwise the segments that
  \<^verbatim>\<open>ctx.ForEachSegment\<close> enumerates. \<^verbatim>\<open>transcribe\<close> trims each text and drops the
  segments whose text is then empty.
\<close>

type_synonym 'a engine = "'a list \<Rightarrow> Segment list option"

definition transcribe :: "'a engine \<Rightarrow> 'a list \<Rightarrow> Segment list option" where
  "transcribe engine pcm =
     (case engine pcm of
        None \<Rightarrow> None
      | Some raw \<Rightarrow>
          Some (filter (\<lambda>s. Text s \<noteq> []) (map (\<lambda>s. s\<lparr>Text := TrimSpace (Text s)\<rparr>) raw)))"

record Flags =
  windowSec :: int
  overlapSec :: int
  maxChars :: int
  maxLines :: int
  srt :: bool   \<comment> \<open>\<^verbatim>\<open>-format srt\<close> rather than \<^verbatim>\<open>vtt\<close>\<close>

text \<open>
  The result of a part of \<^verbatim>\<open>main\<close>: the buffers handed to the recogniser so far, in
  order, and the value computed or the error the run stopped with.
\<close>

type_synonym ('a, 'b) traced = "'a list list \<times> (error + 'b)"

text \<open>
  The loop of \<^verbatim>\<open>main\<close> over the chunks, with its state: the chunk index \<open>i\<close>, the
  running \<open>offset\<close> and the global list \<open>segments\<close>; \<open>step\<close> is
  \<^verbatim>\<open>float32(win - ovl)\<close>.
\<close>

text \<open>\<^verbatim>\<open>s.Start += offset; s.End += offset\<close>\<close>

definition shiftSegment :: "real \<Rightarrow> Segment \<Rightarrow> Segment" where
  "shiftSegment offset s = s\<lparr>Start := f32 (Start s + offset), End := f32 (End s + offset)\<rparr>"

fun rebaseLoop :: "'a engine \<Rightarrow> real \<Rightarrow> nat \<Rightarrow> real \<Rightarrow> Segment list \<Rightarrow> 'a list list
    \<Rightarrow> ('a, Segment list) traced" where
  "rebaseLoop engine step i offset segments [] = ([], Inr segments)"
| "rebaseLoop engine step i offset segments (c # cs) =
     (case transcribe engine c of
        None \<Rightarrow> ([c], Inl (ChunkFailed i))
      | Some segs \<Rightarrow>
          (let segments' = segments @ map (shiftSegment offset) segs;
               (calls, r) = rebaseLoop engine step (i + 1) (f32 (offset + step)) segments' cs
           in (c # calls, r)))"

text \<open>
  The value of \<^verbatim>\<open>offset\<close> when chunk \<open>i\<close> is processed: \<open>i\<close> \<^verbatim>\<open>float32\<close> additions of the
  step, from 0.
\<close>

primrec offsetAt :: "real \<Rightarrow> nat \<Rightarrow> real" where
  "offsetAt step 0 = 0"
| "offsetAt step (Suc i) = f32 (offsetAt step i + step)"

text \<open>
  \<^verbatim>\<open>main\<close> from the declaration of \<^verbatim>\<open>segments\<close> to the end of the \<^verbatim>\<open>if\<close>: the
  segments handed to the cue builder.
\<close>

definition collectSegments :: "Flags \<Rightarrow> 'a engine \<Rightarrow> 'a list \<Rightarrow> ('a, Segment list) traced" where
  "collectSegments flags engine pcm =
     (if windowSec flags \<le> 0
      then (case transcribe engine pcm of
              None \<Rightarrow> ([pcm], Inl TranscribeFailed)
            | Some segs \<Rightarrow> ([pcm], Inr ([] @ segs)))
      else (let win = windowSec flags; ovl = overlapSec flags
            in if win \<le> ovl then ([], Inl WindowNotGreaterThanOverlap)
               else (case chunkPCM pcm 16000 win ovl of
                       Inl e \<Rightarrow> ([], Inl e)
                     | Inr chunks \<Rightarrow>
                         (case rebaseLoop engine (f32 (real_of_int (wrapInt (win - ovl))))
                                 0 0 [] chunks of
                            (calls, Inl e) \<Rightarrow> (calls, Inl e)
                          | (calls, Inr segments) \<Rightarrow>
                              (calls, Inr (dedupeOverlap segments
                                             (f32 (real_of_int (overlapSec flags)))))))))"

subsection \<open>Caption writers\<close>

text \<open>Go's integer division and remainder truncate towards zero.\<close>

definition quot :: "int \<Rightarrow> int \<Rightarrow> int" where
  "quot a b = sgn a * sgn b * (\<bar>a\<bar> div \<bar>b\<bar>)"

definition rem :: "int \<Rightarrow> int \<Rightarrow> int" where
  "rem a b = a - b * quot a b"

text \<open>\<^verbatim>\<open>int(t)\<close> of a float: the fraction is discarded.\<close>

definition truncate :: "real \<Rightarrow> int" where
  "truncate t = (if t \<ge> 0 then \<lfloor>t\<rfloor> else \<lceil>t\<rceil>)"

text \<open>Decimal digits of a natural number, and padding with zeros on the left.\<close>

fun digits :: "nat \<Rightarrow> string" where
  "digits n = (if n < 10 then [''0123456789'' ! n]
               else digits (n div 10) @ [''0123456789'' ! (n mod 10)])"

declare digits.simps [simp del]

definition zeroPad :: "nat \<Rightarrow> string \<Rightarrow> string" where
  "zeroPad width s = replicate (width - length s) CHR ''0'' @ s"

text \<open>\<^verbatim>\<open>%d\<close> and \<^verbatim>\<open>%02d\<close>: the sign counts in the width, the zeros follow it.\<close>

definition fmtInt :: "int \<Rightarrow> string" where
  "fmtInt n = (if n < 0 then ''-'' @ digits (nat (- n)) else digits (nat n))"

definition fmtInt02 :: "int \<Rightarrow> string" where
  "fmtInt02 n = (if n < 0 then ''-'' @ zeroPad 1 (digits (nat (- n)))
                 else zeroPad 2 (digits (nat n)))"

text \<open>
  \<^verbatim>\<open>%06.3f\<close>: the value is rounded to three decimals, a tie to the even neighbour, and
  padded with zeros to six characters.
\<close>

definition fmtFloat063 :: "real \<Rightarrow> string" where
  "fmtFloat063 s =
     (let n = nat (roundHalfEven (\<bar>s\<bar> * 1000));
          body = digits (n div 1000) @ ''.'' @ zeroPad 3 (digits (n mod 1000))
      in if s < 0 then ''-'' @ zeroPad 5 body else zeroPad 6 body)"

text \<open>
  \<^verbatim>\<open>tsVTT\<close>. For a \<^verbatim>\<open>float32\<close> \<open>t\<close> with \<open>0 \<le> t < 2^24\<close> the conversion
  \<^verbatim>\<open>float32(h*3600+m*60)\<close> and the subtraction are exact (the integer is below \<open>2^24\<close> and
  a multiple of the unit in the last place of \<open>t\<close>, and the difference is not larger than
  \<open>t\<close>), so no rounding is written here.
\<close>

definition tsVTT :: "real \<Rightarrow> string" where
  "tsVTT t =
     (let h = quot (truncate t) 3600;
          m = quot (rem (truncate t) 3600) 60;
          s = t - real_of_int (h * 3600 + m * 60)
      in fmtInt02 h @ '':'' @ fmtInt02 m @ '':'' @ fmtFloat063 s)"

text \<open>\<^verbatim>\<open>strings.ReplaceAll(tsVTT(t), ".", ",")\<close>\<close>

definition tsSRT :: "real \<Rightarrow> string" where
  "tsSRT t = map (\<lambda>c. if c = CHR ''.'' then CHR '','' else c) (tsVTT t)"

text \<open>
  The writer \<open>w\<close> is the text written so far. \<^verbatim>\<open>fmt.Fprintln(w, x)\<close> appends \<open>x\<close> and a
  newline.
\<close>

definition Fprintln :: "string \<Rightarrow> string \<Rightarrow> string" where
  "Fprintln w x = w @ x @ [CHR 0x0A]"

definition writeLines :: "string \<Rightarrow> string list \<Rightarrow> string" where
  "writeLines w ls = foldl Fprintln w ls"

definition writeCueVTT :: "string \<Rightarrow> Cue \<Rightarrow> string" where
  "writeCueVTT w c =
     (let w1 = w @ tsVTT (CStart c) @ '' --> '' @ tsVTT (CEnd c) @ [CHR 0x0A];
          w2 = writeLines w1 (Lines c)
      in Fprintln w2 [])"

definition writeVTT :: "string \<Rightarrow> Cue list \<Rightarrow> string" where
  "writeVTT w cues = foldl writeCueVTT (Fprintln w (''WEBVTT'' @ [CHR 0x0A])) cues"

definition writeCueSRT :: "string \<Rightarrow> Cue \<Rightarrow> string" where
  "writeCueSRT w c =
     (let w0 = Fprintln w (fmtInt (Idx c));
          w1 = w0 @ tsSRT (CStart c) @ '' --> '' @ tsSRT (CEnd c) @ [CHR 0x0A];
          w2 = writeLines w1 (Lines c)
      in Fprintln w2 [])"

definition writeSRT :: "string \<Rightarrow> Cue list \<Rightarrow> string" where
  "writeSRT w cues = foldl writeCueSRT w cues"

text \<open>
  \<^verbatim>\<open>main\<close> after decoding and model loading: the buffers handed to the recogniser and
  the text written to the output.
\<close>

definition pipeline :: "Flags \<Rightarrow> 'a engine \<Rightarrow> 'a list \<Rightarrow> ('a, string) traced" where
  "pipeline flags engine pcm =
     (case collectSegments flags engine pcm of
        (calls, Inl e) \<Rightarrow> (calls, Inl e)
      | (calls, Inr segments) \<Rightarrow>
          (case segmentsToCues segments (maxChars flags) (maxLines flags) of
             Inl e \<Rightarrow> (calls, Inl e)
           | Inr cues \<Rightarrow>
               (calls, Inr (if srt flags then writeSRT [] cues else writeVTT [] cues))))"





section \<open>Properties\<close>

subsection \<open>Machine arithmetic\<close>

lemma wrapInt_id: "- (2 ^ 63) \<le> x \<Longrightarrow> x < 2 ^ 63 \<Longrightarrow> wrapInt x = x"
  by (simp add: wrapInt_def)

lemma pow2_pos: "0 < pow2 k"
  by (simp add: pow2_def)

text \<open>The exponent is the one of the binary representation.\<close>

lemma expo_bounds:
  assumes "x \<noteq> 0"
  shows "pow2 (expo x) \<le> \<bar>x\<bar> \<and> \<bar>x\<bar> < pow2 (expo x + 1)"
proof (cases "\<bar>x\<bar> \<ge> 1")
  case True
  define n where "n = \<lfloor>\<bar>x\<bar>\<rfloor>"
  have n: "1 \<le> n" "real_of_int n \<le> \<bar>x\<bar>" "\<bar>x\<bar> < real_of_int n + 1"
    using True by (simp_all add: n_def le_floor_iff)
  have b: "2 ^ nat (bitlen n - 1) \<le> n" "n < 2 ^ nat (bitlen n)"
    using bitlen_bounds [of n] n(1) by simp_all
  have b1: "1 \<le> bitlen n"
  proof (rule ccontr)
    assume "\<not> 1 \<le> bitlen n"
    then have "nat (bitlen n) = 0" by simp
    with b(2) n(1) show False by simp
  qed
  have e: "expo x = bitlen n - 1" using True by (simp add: expo_def n_def)
  have lo: "pow2 (expo x) \<le> \<bar>x\<bar>"
  proof -
    have "pow2 (expo x) = 2 ^ nat (bitlen n - 1)" using b1 by (simp add: e pow2_def)
    moreover have "(2 :: real) ^ nat (bitlen n - 1) \<le> real_of_int n" using b(1) by simp
    ultimately show ?thesis using n(2) by linarith
  qed
  have hi: "\<bar>x\<bar> < pow2 (expo x + 1)"
  proof -
    have "real_of_int (n + 1) \<le> 2 ^ nat (bitlen n)"
      using b(2) by (metis of_int_le_iff of_int_numeral of_int_power zless_imp_add1_zle)
    then have "real_of_int n + 1 \<le> 2 ^ nat (bitlen n)" by simp
    moreover have "pow2 (expo x + 1) = 2 ^ nat (bitlen n)" using b1 by (simp add: e pow2_def)
    ultimately show ?thesis using n(3) by simp
  qed
  from lo hi show ?thesis ..
next
  case False
  define y where "y = 1 / \<bar>x\<bar>"
  have ax: "0 < \<bar>x\<bar>" "\<bar>x\<bar> < 1" using assms False by simp_all
  have y: "1 < y" using ax by (simp add: y_def)
  define n where "n = \<lceil>y\<rceil> - 1"
  have n: "1 \<le> n" "real_of_int n < y" "y \<le> real_of_int n + 1"
    using y by (simp_all add: n_def less_ceiling_iff ceiling_le_iff [symmetric]) linarith+
  have b: "2 ^ nat (bitlen n - 1) \<le> n" "n < 2 ^ nat (bitlen n)"
    using bitlen_bounds [of n] n(1) by simp_all
  have b1: "1 \<le> bitlen n"
  proof (rule ccontr)
    assume "\<not> 1 \<le> bitlen n"
    then have "nat (bitlen n) = 0" by simp
    with b(2) n(1) show False by simp
  qed
  have e: "expo x = - bitlen n" using False by (simp add: expo_def n_def y_def)
  have lo: "pow2 (expo x) \<le> \<bar>x\<bar>"
  proof -
    have "real_of_int (n + 1) \<le> 2 ^ nat (bitlen n)"
      using b(2) by (metis of_int_le_iff of_int_numeral of_int_power zless_imp_add1_zle)
    then have "y \<le> 2 ^ nat (bitlen n)" using n(3) by simp
    then have "1 / 2 ^ nat (bitlen n) \<le> 1 / y" using y by (simp add: frac_le)
    moreover have "1 / y = \<bar>x\<bar>" by (simp add: y_def)
    moreover have "pow2 (expo x) = 1 / 2 ^ nat (bitlen n)" using b1 by (simp add: e pow2_def)
    ultimately show ?thesis by simp
  qed
  have hi: "\<bar>x\<bar> < pow2 (expo x + 1)"
  proof -
    have "(2 :: real) ^ nat (bitlen n - 1) \<le> real_of_int n" using b(1) by simp
    then have "2 ^ nat (bitlen n - 1) < y" using n(2) by linarith
    then have "1 / y < 1 / 2 ^ nat (bitlen n - 1)" by (simp add: frac_less2)
    moreover have "1 / y = \<bar>x\<bar>" by (simp add: y_def)
    moreover have "pow2 (expo x + 1) = 1 / 2 ^ nat (bitlen n - 1)"
      using b1 by (auto simp: e pow2_def)
    ultimately show ?thesis by simp
  qed
  from lo hi show ?thesis ..
qed

lemma roundHalfEven_of_int: "roundHalfEven (real_of_int n) = n"
  by (simp add: roundHalfEven_def)

text \<open>An integer below \<open>2^24\<close> in absolute value is a \<^verbatim>\<open>float32\<close>.\<close>

lemma f32_of_int:
  assumes "\<bar>k\<bar> < 2 ^ 24"
  shows "f32 (real_of_int k) = real_of_int k"
proof (cases "k = 0")
  case True
  then show ?thesis by (simp add: f32_def roundFloat_def)
next
  case False
  define x where "x = real_of_int k"
  have x0: "x \<noteq> 0" using False by (simp add: x_def)
  have x1: "1 \<le> \<bar>x\<bar>" using False by (simp add: x_def)
  have x2: "\<bar>x\<bar> < 2 ^ 24"
  proof -
    have "real_of_int \<bar>k\<bar> < real_of_int (2 ^ 24)" using assms by (simp only: of_int_less_iff)
    then show ?thesis by (simp add: x_def)
  qed
  define e where "e = expo x"
  from expo_bounds [OF x0] have lo: "pow2 e \<le> \<bar>x\<bar>" and hi: "\<bar>x\<bar> < pow2 (e + 1)"
    by (simp_all add: e_def)
  have e0: "0 \<le> e"
  proof (rule ccontr)
    assume "\<not> 0 \<le> e"
    then have "pow2 (e + 1) = 1 / 2 ^ nat (- (e + 1))" by (auto simp: pow2_def)
    also have "\<dots> \<le> 1" by simp
    finally show False using hi x1 by simp
  qed
  have e23: "e \<le> 23"
  proof (rule ccontr)
    assume "\<not> e \<le> 23"
    then have "24 \<le> nat e" by simp
    then have "(2 :: real) ^ 24 \<le> 2 ^ nat e" by (intro power_increasing) simp_all
    moreover have "pow2 e = 2 ^ nat e" using e0 by (simp add: pow2_def)
    ultimately show False using lo x2 by simp
  qed
  define m where "m = nat (23 - e)"
  have ulp: "pow2 (max e (- 126) - int 24 + 1) = 1 / 2 ^ m"
    using e0 e23 by (auto simp: pow2_def m_def)
  have "x / (1 / 2 ^ m) = real_of_int (k * 2 ^ m)" by (simp add: x_def)
  then have "roundHalfEven (x / (1 / 2 ^ m)) = k * 2 ^ m"
    by (simp only: roundHalfEven_of_int)
  then have "of_int (roundHalfEven (x / (1 / 2 ^ m))) * (1 / 2 ^ m) = x"
    by (simp add: x_def)
  then show ?thesis
    using x0 ulp by (simp add: f32_def roundFloat_def Let_def e_def [symmetric] x_def [symmetric])
qed

text \<open>
  As long as \<open>i * d\<close> stays below \<open>2^24\<close>, \<open>i\<close> \<^verbatim>\<open>float32\<close> additions of the integer
  \<open>d \<ge> 0\<close> give \<open>i * d\<close> exactly.
\<close>

lemma offsetAt_exact:
  assumes "0 \<le> d"
  shows "int i * d < 2 ^ 24 \<Longrightarrow> offsetAt (f32 (real_of_int d)) i = real_of_int (int i * d)"
proof (induction i)
  case 0
  show ?case by simp
next
  case (Suc i)
  have le1: "d \<le> int (Suc i) * d" using assms by (simp add: algebra_simps)
  have le2: "int i * d \<le> int (Suc i) * d" using assms by (simp add: algebra_simps)
  have d: "\<bar>d\<bar> < 2 ^ 24" using Suc.prems le1 assms by simp
  have s: "f32 (real_of_int d) = real_of_int d" using d by (rule f32_of_int)
  have i: "offsetAt (f32 (real_of_int d)) i = real_of_int (int i * d)"
    using Suc.IH Suc.prems le2 by simp
  have "0 \<le> int (Suc i) * d" using assms by simp
  then have "\<bar>int (Suc i) * d\<bar> < 2 ^ 24" using Suc.prems by simp
  then have "f32 (real_of_int (int (Suc i) * d)) = real_of_int (int (Suc i) * d)"
    by (rule f32_of_int)
  note r = this
  have a: "real_of_int (int i * d) + real_of_int d = real_of_int (int (Suc i) * d)"
    by (simp add: algebra_simps)
  have i': "offsetAt (real_of_int d) i = real_of_int (int i * d)"
    using i s by simp
  have "offsetAt (f32 (real_of_int d)) (Suc i) = offsetAt (real_of_int d) (Suc i)"
    by (simp only: s)
  also have "\<dots> = f32 (offsetAt (real_of_int d) i + real_of_int d)"
    by simp
  also have "\<dots> = f32 (real_of_int (int i * d) + real_of_int d)"
    by (simp only: i')
  also have "\<dots> = f32 (real_of_int (int (Suc i) * d))"
    by (simp only: a)
  also have "\<dots> = real_of_int (int (Suc i) * d)"
    by (rule r)
  finally show ?case .
qed

subsection \<open>The wrapper and the merge pass return\<close>

lemma softTruncate_ok: "0 \<le> mx \<Longrightarrow> \<exists>t. softTruncate s mx = Inr t"
  by (simp add: softTruncate_def Let_def)

lemma capLines_ok: "0 \<le> ml \<Longrightarrow> \<exists>ls. capLines lines ml = Inr ls"
  by (simp add: capLines_def)

lemma softTruncate_no_error: "0 \<le> mx \<Longrightarrow> softTruncate s mx \<noteq> Inl e"
  by (simp add: softTruncate_def Let_def)

lemma wrapLoop_ok:
  "0 \<le> mc \<Longrightarrow> 0 \<le> ml \<Longrightarrow> \<exists>ls. wrapLoop words mc ml lines cur ws = Inr ls"
proof (induction ws arbitrary: lines cur)
  case Nil
  then show ?case by (simp add: capLines_ok)
next
  case (Cons w ws)
  show ?case
    using Cons by (auto simp: Let_def capLines_ok softTruncate_no_error split: sum.splits)
qed

lemma wrapWords_ok: "0 \<le> mc \<Longrightarrow> 0 \<le> ml \<Longrightarrow> \<exists>ls. wrapWords s mc ml = Inr ls"
  by (simp add: wrapWords_def wrapLoop_ok Let_def)

lemma mergeLoop_ok: "\<exists>out. mergeLoop d cues = Inr out"
proof (induction d cues rule: mergeLoop.induct)
  case (3 d c nxt rest)
  obtain ls where ls: "wrapWords (TrimSpace (RawText c @ '' '' @ RawText nxt)) 42 2 = Inr ls"
    using wrapWords_ok [of 42 2] by auto
  show ?case
  proof (cases "d \<le> f32 (CEnd c - CStart c)")
    case True
    with 3 show ?thesis by auto
  next
    case False
    with 3(2) [OF False ls] ls show ?thesis by auto
  qed
qed simp_all

lemma mergeLoop_groups:
  "mergeLoop d cues = Inr out \<Longrightarrow>
   \<exists>gs. concat gs = cues \<and> (\<forall>g \<in> set gs. g \<noteq> [] \<and> length g \<le> 2) \<and>
        map (\<lambda>c. (CStart c, CEnd c)) out = map (\<lambda>g. (CStart (hd g), CEnd (last g))) gs"
proof (induction d cues arbitrary: out rule: mergeLoop.induct)
  case (1 d)
  then show ?case by simp
next
  case (2 d c)
  then have "out = [c]" by simp
  then show ?case by (intro exI [of _ "[[c]]"]) simp
next
  case (3 d c nxt rest)
  show ?case
  proof (cases "d \<le> f32 (CEnd c - CStart c)")
    case True
    with 3(3) obtain out' where o: "mergeLoop d (nxt # rest) = Inr out'" "out = c # out'"
      by (auto split: sum.splits)
    from 3(1) [OF True o(1)] obtain gs where
      gs: "concat gs = nxt # rest" "\<forall>g \<in> set gs. g \<noteq> [] \<and> length g \<le> 2"
          "map (\<lambda>c. (CStart c, CEnd c)) out' = map (\<lambda>g. (CStart (hd g), CEnd (last g))) gs"
      by blast
    show ?thesis
      using gs o(2) by (intro exI [of _ "[c] # gs"]) simp
  next
    case False
    with 3(3) obtain ls out' where
      ls: "wrapWords (TrimSpace (RawText c @ '' '' @ RawText nxt)) 42 2 = Inr ls"
      and o: "mergeLoop d rest = Inr out'"
      and out: "out = \<lparr>Idx = Idx c, CStart = CStart c, CEnd = CEnd nxt, Lines = ls,
                  RawText = TrimSpace (RawText c @ '' '' @ RawText nxt)\<rparr> # out'"
      by (auto split: sum.splits)
    from 3(2) [OF False ls o] obtain gs where
      gs: "concat gs = rest" "\<forall>g \<in> set gs. g \<noteq> [] \<and> length g \<le> 2"
          "map (\<lambda>c. (CStart c, CEnd c)) out' = map (\<lambda>g. (CStart (hd g), CEnd (last g))) gs"
      by blast
    show ?thesis
      using gs out by (intro exI [of _ "[c, nxt] # gs"]) simp
  qed
qed

lemma mergeLoop_ends:
  "mergeLoop d cues = Inr out \<Longrightarrow> cues \<noteq> [] \<Longrightarrow>
   out \<noteq> [] \<and> CStart (hd out) = CStart (hd cues) \<and> CEnd (last out) = CEnd (last cues)"
proof (induction d cues arbitrary: out rule: mergeLoop.induct)
  case (1 d)
  then show ?case by simp
next
  case (2 d c)
  then show ?case by auto
next
  case (3 d c nxt rest)
  show ?case
  proof (cases "d \<le> f32 (CEnd c - CStart c)")
    case True
    with 3(3) obtain out' where o: "mergeLoop d (nxt # rest) = Inr out'" "out = c # out'"
      by (auto split: sum.splits)
    from 3(1) [OF True o(1)] show ?thesis using o(2) by simp
  next
    case False
    with 3(3) obtain ls out' where
      ls: "wrapWords (TrimSpace (RawText c @ '' '' @ RawText nxt)) 42 2 = Inr ls"
      and o: "mergeLoop d rest = Inr out'"
      and out: "out = \<lparr>Idx = Idx c, CStart = CStart c, CEnd = CEnd nxt, Lines = ls,
                  RawText = TrimSpace (RawText c @ '' '' @ RawText nxt)\<rparr> # out'"
      by (auto split: sum.splits)
    show ?thesis
    proof (cases rest)
      case Nil
      with o out show ?thesis by simp
    next
      case (Cons r rs)
      with 3(2) [OF False ls o] out show ?thesis by simp
    qed
  qed
qed

lemma reindexFrom_span:
  "map (\<lambda>c. (CStart c, CEnd c)) (reindexFrom i cs) = map (\<lambda>c. (CStart c, CEnd c)) cs"
  by (induction cs arbitrary: i) simp_all

lemma reindexFrom_length: "length (reindexFrom i cs) = length cs"
  by (induction cs arbitrary: i) simp_all

lemma reindexFrom_Idx: "map Idx (reindexFrom i cs) = [i + 1 .. i + int (length cs)]"
proof (induction cs arbitrary: i)
  case Nil
  then show ?case by simp
next
  case (Cons c cs)
  have "[i + 1 .. i + int (length (c # cs))] = (i + 1) # [i + 1 + 1 .. i + 1 + int (length cs)]"
    by (simp add: upto_rec1 add.assoc)
  with Cons show ?case by simp
qed

lemma buildCues_Idx:
  "buildCues mc ml idx segs = Inr cues \<Longrightarrow> map Idx cues = [idx .. idx + int (length cues) - 1]"
proof (induction segs arbitrary: idx cues)
  case Nil
  then show ?case by simp
next
  case (Cons s ss)
  then obtain ls where ls: "wrapWords (Text s) mc ml = Inr ls"
    by (auto split: sum.splits)
  show ?case
  proof (cases "ls = []")
    case True
    with Cons ls show ?thesis by simp
  next
    case False
    with Cons.prems ls obtain cs where
      cs: "buildCues mc ml (idx + 1) ss = Inr cs"
      and cues: "cues = \<lparr>Idx = idx, CStart = Start s, CEnd = End s, Lines = ls, RawText = Text s\<rparr> # cs"
      by (auto split: sum.splits)
    have "[idx .. idx + int (length cues) - 1] = idx # [idx + 1 .. idx + 1 + int (length cs) - 1]"
      using cues by (simp add: upto_rec1)
    with Cons.IH [OF cs] cues show ?thesis by simp
  qed
qed

lemma buildCues_ok:
  "0 \<le> mc \<Longrightarrow> 0 \<le> ml \<Longrightarrow> \<exists>cues. buildCues mc ml idx segs = Inr cues"
proof (induction segs arbitrary: idx)
  case Nil
  then show ?case by simp
next
  case (Cons s ss)
  obtain ls where ls: "wrapWords (Text s) mc ml = Inr ls"
    using wrapWords_ok [OF Cons.prems] by blast
  obtain c1 where c1: "buildCues mc ml idx ss = Inr c1" using Cons by blast
  obtain c2 where c2: "buildCues mc ml (idx + 1) ss = Inr c2" using Cons by blast
  show ?case using ls c1 c2 by simp
qed

lemma mergeShortCues_short: "length cues < 2 \<Longrightarrow> mergeShortCues cues d = Inr cues"
  by (simp add: mergeShortCues_def)

lemma mergeShortCues_long:
  "\<not> length cues < 2 \<Longrightarrow> mergeLoop d cues = Inr out \<Longrightarrow>
   mergeShortCues cues d = Inr (reindexFrom 0 out)"
  by (simp add: mergeShortCues_def)

lemma segmentsToCues_ok:
  assumes "0 \<le> mc" "0 \<le> ml"
  shows "\<exists>cues. segmentsToCues segs mc ml = Inr cues"
proof -
  obtain built where b: "buildCues mc ml 1 segs = Inr built"
    using buildCues_ok [OF assms, of 1 segs] by blast
  obtain out where o: "mergeLoop (f64 (6 / 10)) built = Inr out"
    using mergeLoop_ok by blast
  show ?thesis
    using b o by (simp add: segmentsToCues_def mergeShortCues_def)
qed

lemma segmentsToCues_Idx:
  assumes r: "segmentsToCues segs mc ml = Inr cues"
  shows "map Idx cues = [1 .. int (length cues)]"
proof -
  from r obtain built where b: "buildCues mc ml 1 segs = Inr built"
    and m: "mergeShortCues built (f64 (6 / 10)) = Inr cues"
    by (auto simp: segmentsToCues_def split: sum.splits)
  show ?thesis
  proof (cases "length built < 2")
    case True
    with m have "cues = built" by (simp add: mergeShortCues_def)
    with buildCues_Idx [OF b] show ?thesis by simp
  next
    case False
    with m obtain out where "cues = reindexFrom 0 out"
      by (auto simp: mergeShortCues_def split: sum.splits)
    then show ?thesis
      using reindexFrom_Idx [of 0 out] by (simp add: reindexFrom_length)
  qed
qed

subsection \<open>Index contiguity\<close>

text \<open>
  Claim C9. Cue building followed by the short-cue merge pass returns for every
  non-negative \<open>maxChars\<close> and \<open>maxLines\<close>, and whenever it returns cues, their indices
  are \<open>1, 2, ..., n\<close> in output order (for \<open>n = 0\<close> and \<open>n = 1\<close> as well), whatever the
  number of merges.
\<close>

theorem segmentsToCues_indices_contiguous:
  "(0 \<le> mc \<and> 0 \<le> ml \<longrightarrow> (\<exists>cues. segmentsToCues segs mc ml = Inr cues)) \<and>
   (\<forall>cues. segmentsToCues segs mc ml = Inr cues \<longrightarrow> map Idx cues = [1 .. int (length cues)])"
  using segmentsToCues_ok [of mc ml segs] segmentsToCues_Idx [of segs mc ml] by blast

theorem segmentsToCues_indices_contiguous_witness:
  "(0::int) \<le> 42 \<and> (0::int) \<le> 2 \<and>
   segmentsToCues [\<lparr>Start = 0, End = 3 / 10, Text = ''so''\<rparr>,
                   \<lparr>Start = 3 / 10, End = 2, Text = ''it begins''\<rparr>,
                   \<lparr>Start = 2, End = 4, Text = ''here''\<rparr>] 42 2
     = Inr [\<lparr>Idx = 1, CStart = 0, CEnd = 2, Lines = [''so it begins''], RawText = ''so it begins''\<rparr>,
            \<lparr>Idx = 2, CStart = 2, CEnd = 4, Lines = [''here''], RawText = ''here''\<rparr>] \<and>
   map Idx [\<lparr>Idx = 1, CStart = 0, CEnd = 2, Lines = [''so it begins''], RawText = ''so it begins''\<rparr>,
            \<lparr>Idx = 2, CStart = 2, CEnd = 4, Lines = [''here''], RawText = ''here''\<rparr>] = [1 .. 2]"
proof -
  have e: "segmentsToCues [\<lparr>Start = 0, End = 3 / 10, Text = ''so''\<rparr>,
                   \<lparr>Start = 3 / 10, End = 2, Text = ''it begins''\<rparr>,
                   \<lparr>Start = 2, End = 4, Text = ''here''\<rparr>] 42 2
     = Inr [\<lparr>Idx = 1, CStart = 0, CEnd = 2, Lines = [''so it begins''], RawText = ''so it begins''\<rparr>,
            \<lparr>Idx = 2, CStart = 2, CEnd = 4, Lines = [''here''], RawText = ''here''\<rparr>]"
    by code_simp
  from segmentsToCues_indices_contiguous [THEN conjunct2, rule_format, OF e] e
  show ?thesis by simp
qed

subsection \<open>The merge pass keeps the covered time span\<close>

text \<open>
  Claim C10. For every non-empty cue list the merge pass returns a non-empty list whose
  first cue starts where the first input cue starts and whose last cue ends where the
  last input cue ends. No time range is discarded: the input splits into consecutive
  groups of one or two cues, and the output cues are, in order, the spans from the start
  of a group's first cue to the end of its last.
\<close>

theorem mergeShortCues_preserves_span:
  assumes "cues \<noteq> []"
  shows "\<exists>out. mergeShortCues cues minDur = Inr out \<and> out \<noteq> [] \<and>
           CStart (hd out) = CStart (hd cues) \<and> CEnd (last out) = CEnd (last cues) \<and>
           (\<exists>gs. concat gs = cues \<and> (\<forall>g \<in> set gs. g \<noteq> [] \<and> length g \<le> 2) \<and>
                 map (\<lambda>c. (CStart c, CEnd c)) out =
                 map (\<lambda>g. (CStart (hd g), CEnd (last g))) gs)"
proof (cases "length cues < 2")
  case True
  have "concat [cues] = cues \<and> (\<forall>g \<in> set [cues]. g \<noteq> [] \<and> length g \<le> 2) \<and>
        map (\<lambda>c. (CStart c, CEnd c)) cues = map (\<lambda>g. (CStart (hd g), CEnd (last g))) [cues]"
    using True assms by (cases cues) auto
  then have "\<exists>gs. concat gs = cues \<and> (\<forall>g \<in> set gs. g \<noteq> [] \<and> length g \<le> 2) \<and>
        map (\<lambda>c. (CStart c, CEnd c)) cues = map (\<lambda>g. (CStart (hd g), CEnd (last g))) gs"
    by blast
  with True assms show ?thesis by (simp add: mergeShortCues_short)
next
  case False
  obtain out where o: "mergeLoop minDur cues = Inr out"
    using mergeLoop_ok by blast
  let ?r = "reindexFrom 0 out"
  have sp: "map (\<lambda>c. (CStart c, CEnd c)) ?r = map (\<lambda>c. (CStart c, CEnd c)) out"
    by (rule reindexFrom_span)
  from mergeLoop_ends [OF o assms] have ne: "out \<noteq> []"
    and st: "CStart (hd out) = CStart (hd cues)" and en: "CEnd (last out) = CEnd (last cues)"
    by simp_all
  have rne: "?r \<noteq> []" using ne reindexFrom_length [of 0 out] by auto
  have "fst (hd (map (\<lambda>c. (CStart c, CEnd c)) ?r)) = fst (hd (map (\<lambda>c. (CStart c, CEnd c)) out))"
    by (simp only: sp)
  then have rst: "CStart (hd ?r) = CStart (hd out)"
    using ne rne by (simp add: hd_map)
  have "snd (last (map (\<lambda>c. (CStart c, CEnd c)) ?r)) = snd (last (map (\<lambda>c. (CStart c, CEnd c)) out))"
    by (simp only: sp)
  then have ren: "CEnd (last ?r) = CEnd (last out)"
    using ne rne by (simp add: last_map)
  from mergeLoop_groups [OF o] obtain gs where
    gs: "concat gs = cues" "\<forall>g \<in> set gs. g \<noteq> [] \<and> length g \<le> 2"
        "map (\<lambda>c. (CStart c, CEnd c)) out = map (\<lambda>g. (CStart (hd g), CEnd (last g))) gs"
    by blast
  have "mergeShortCues cues minDur = Inr ?r"
    using False o by (rule mergeShortCues_long)
  moreover have "\<exists>gs. concat gs = cues \<and> (\<forall>g \<in> set gs. g \<noteq> [] \<and> length g \<le> 2) \<and>
                 map (\<lambda>c. (CStart c, CEnd c)) ?r = map (\<lambda>g. (CStart (hd g), CEnd (last g))) gs"
    using gs sp by auto
  ultimately show ?thesis
    using rne rst ren st en by simp
qed

theorem mergeShortCues_preserves_span_witness:
  "[\<lparr>Idx = 1, CStart = 0, CEnd = 3 / 10, Lines = [''so''], RawText = ''so''\<rparr>,
    \<lparr>Idx = 2, CStart = 3 / 10, CEnd = 2, Lines = [''it begins''], RawText = ''it begins''\<rparr>,
    \<lparr>Idx = 3, CStart = 2, CEnd = 4, Lines = [''here''], RawText = ''here''\<rparr>] \<noteq> [] \<and>
   (\<exists>out. mergeShortCues
            [\<lparr>Idx = 1, CStart = 0, CEnd = 3 / 10, Lines = [''so''], RawText = ''so''\<rparr>,
             \<lparr>Idx = 2, CStart = 3 / 10, CEnd = 2, Lines = [''it begins''], RawText = ''it begins''\<rparr>,
             \<lparr>Idx = 3, CStart = 2, CEnd = 4, Lines = [''here''], RawText = ''here''\<rparr>] (6 / 10)
          = Inr out \<and> out \<noteq> [] \<and> CStart (hd out) = 0 \<and> CEnd (last out) = 4)"
  using mergeShortCues_preserves_span
    [of "[\<lparr>Idx = 1, CStart = 0, CEnd = 3 / 10, Lines = [''so''], RawText = ''so''\<rparr>,
          \<lparr>Idx = 2, CStart = 3 / 10, CEnd = 2, Lines = [''it begins''], RawText = ''it begins''\<rparr>,
          \<lparr>Idx = 3, CStart = 2, CEnd = 4, Lines = [''here''], RawText = ''here''\<rparr>]" "6 / 10"]
  by auto

subsection \<open>Overlap de-duplication\<close>

lemma dedupeLoop_dedupeFrom:
  "out \<noteq> [] \<Longrightarrow>
   dedupeLoop ov out rest = out @ dedupeFrom (isDuplicateFloat ov) (last out) rest"
proof (induction rest arbitrary: out)
  case Nil
  then show ?case by simp
next
  case (Cons c rest)
  show ?case
  proof (cases "isDuplicateFloat ov (last out) c")
    case True
    then have "dedupeLoop ov out (c # rest) = dedupeLoop ov out rest"
      by (auto simp: isDuplicateFloat_def Let_def)
    with Cons True show ?thesis by simp
  next
    case False
    then have "dedupeLoop ov out (c # rest) = dedupeLoop ov (out @ [c]) rest"
      by (auto simp: isDuplicateFloat_def Let_def)
    with Cons.IH [of "out @ [c]"] False show ?thesis by simp
  qed
qed

lemma dedupeFrom_subseq: "subseq (dedupeFrom dup k rest) rest"
  by (induction rest arbitrary: k) auto

text \<open>
  Claim C3, as the program has it. \<^verbatim>\<open>dedupeOverlap\<close> scans left to right with a running
  last-kept segment and drops a candidate exactly when its trimmed text equals the
  trimmed text of the last kept segment and the \<^verbatim>\<open>float32\<close> difference of their start
  times is, in absolute value, less than the \<^verbatim>\<open>float64\<close> sum of \<open>overlapSeconds\<close> and the
  \<^verbatim>\<open>float64\<close> nearest to 0.2. The retained segments are a subsequence of the input
  (original order), and the first segment is never dropped.
\<close>

theorem dedupeOverlap_rule:
  "dedupeOverlap segs overlap = dedupeSpec (isDuplicateFloat overlap) segs \<and>
   subseq (dedupeOverlap segs overlap) segs \<and>
   (segs \<noteq> [] \<longrightarrow> dedupeOverlap segs overlap \<noteq> [] \<and> hd (dedupeOverlap segs overlap) = hd segs)"
proof -
  have eq: "dedupeOverlap segs overlap = dedupeSpec (isDuplicateFloat overlap) segs"
  proof (cases segs)
    case Nil
    then show ?thesis by (simp add: dedupeOverlap_def dedupeSpec_def)
  next
    case (Cons s rest)
    show ?thesis
    proof (cases rest)
      case Nil
      with Cons show ?thesis by (simp add: dedupeOverlap_def dedupeSpec_def)
    next
      case (Cons r rs)
      with \<open>segs = s # rest\<close> show ?thesis
        using dedupeLoop_dedupeFrom [of "[s]" overlap rest]
        by (simp add: dedupeOverlap_def dedupeSpec_def)
    qed
  qed
  have sub: "subseq (dedupeSpec (isDuplicateFloat overlap) segs) segs"
    by (cases segs) (simp_all add: dedupeSpec_def dedupeFrom_subseq)
  have hd: "segs \<noteq> [] \<longrightarrow> dedupeSpec (isDuplicateFloat overlap) segs \<noteq> [] \<and>
              hd (dedupeSpec (isDuplicateFloat overlap) segs) = hd segs"
    by (cases segs) (simp_all add: dedupeSpec_def)
  from eq sub hd show ?thesis by simp
qed

theorem dedupeOverlap_rule_witness:
  "dedupeOverlap
     [\<lparr>Start = 7746355 / 131072, End = 7877427 / 131072, Text = ''hello world''\<rparr>,
      \<lparr>Start = 59, End = 60, Text = ''hello world''\<rparr>,
      \<lparr>Start = 118, End = 119, Text = ''hello world''\<rparr>] 1
   = [\<lparr>Start = 7746355 / 131072, End = 7877427 / 131072, Text = ''hello world''\<rparr>,
      \<lparr>Start = 118, End = 119, Text = ''hello world''\<rparr>] \<and>
   [\<lparr>Start = 7746355 / 131072, End = 7877427 / 131072, Text = ''hello world''\<rparr>,
    \<lparr>Start = 59, End = 60, Text = ''hello world''\<rparr>,
    \<lparr>Start = 118, End = 119, Text = ''hello world''\<rparr>] \<noteq> [] \<and>
   hd (dedupeOverlap
     [\<lparr>Start = 7746355 / 131072, End = 7877427 / 131072, Text = ''hello world''\<rparr>,
      \<lparr>Start = 59, End = 60, Text = ''hello world''\<rparr>,
      \<lparr>Start = 118, End = 119, Text = ''hello world''\<rparr>] 1)
   = \<lparr>Start = 7746355 / 131072, End = 7877427 / 131072, Text = ''hello world''\<rparr>"
proof -
  have s: "dedupeSpec (isDuplicateFloat 1)
     [\<lparr>Start = 7746355 / 131072, End = 7877427 / 131072, Text = ''hello world''\<rparr>,
      \<lparr>Start = 59, End = 60, Text = ''hello world''\<rparr>,
      \<lparr>Start = 118, End = 119, Text = ''hello world''\<rparr>]
   = [\<lparr>Start = 7746355 / 131072, End = 7877427 / 131072, Text = ''hello world''\<rparr>,
      \<lparr>Start = 118, End = 119, Text = ''hello world''\<rparr>]"
    by code_simp
  show ?thesis
    using dedupeOverlap_rule
      [of "[\<lparr>Start = 7746355 / 131072, End = 7877427 / 131072, Text = ''hello world''\<rparr>,
            \<lparr>Start = 59, End = 60, Text = ''hello world''\<rparr>,
            \<lparr>Start = 118, End = 119, Text = ''hello world''\<rparr>]" 1] s
    by simp
qed

text \<open>
  The rule with the exact difference of the claim fails. The \<^verbatim>\<open>float32\<close> nearest to 0.05
  is \<open>13421773 / 2^28\<close>; a segment starting there and one starting at 1.25 with the
  same text differ by less than 1.2, but their \<^verbatim>\<open>float32\<close> difference is
  \<open>5033165 / 2^22\<close>, which is more than 1.2: with an overlap of one second the
  program keeps the second segment, the rule as stated drops it.
\<close>

theorem dedupeOverlap_float_difference:
  "dedupeOverlap
     [\<lparr>Start = 13421773 / 268435456, End = 1, Text = ''hello''\<rparr>,
      \<lparr>Start = 5 / 4, End = 2, Text = ''hello''\<rparr>] 1
   = [\<lparr>Start = 13421773 / 268435456, End = 1, Text = ''hello''\<rparr>,
      \<lparr>Start = 5 / 4, End = 2, Text = ''hello''\<rparr>] \<and>
   dedupeSpec (isDuplicate 1)
     [\<lparr>Start = 13421773 / 268435456, End = 1, Text = ''hello''\<rparr>,
      \<lparr>Start = 5 / 4, End = 2, Text = ''hello''\<rparr>]
   = [\<lparr>Start = 13421773 / 268435456, End = 1, Text = ''hello''\<rparr>] \<and>
   f32 (13421773 / 268435456 - 5 / 4) = - (5033165 / 4194304) \<and>
   f64 (1 + f64 (2 / 10)) = 5404319552844595 / 4503599627370496"
  by (intro conjI; code_simp)

subsection \<open>Timestamp re-basing\<close>

lemma offsetAt_funpow: "offsetAt step k = ((\<lambda>x. f32 (x + step)) ^^ k) 0"
  by (induction k) simp_all

lemma rebaseLoop_all:
  "map (transcribe engine) chunks = map Some segss \<Longrightarrow>
   rebaseLoop engine step i offset segments chunks =
     (chunks, Inr (segments @
        concat (map (\<lambda>(k, segs). map (shiftSegment (((\<lambda>x. f32 (x + step)) ^^ k) offset)) segs)
                    (enumerate 0 segss))))"
proof (induction chunks arbitrary: i offset segments segss)
  case Nil
  then show ?case by simp
next
  case (Cons c cs)
  then obtain segs rest where segss: "segss = segs # rest"
    and c: "transcribe engine c = Some segs"
    and cs: "map (transcribe engine) cs = map Some rest"
    by (cases segss) auto
  let ?F = "\<lambda>x. f32 (x + step)"
  have sw: "\<And>k. f32 ((?F ^^ k) offset + step) = (?F ^^ k) (f32 (offset + step))"
    using funpow_swap1 [of ?F _ offset] by simp
  have e: "map (\<lambda>(k, segs). map (shiftSegment ((?F ^^ k) offset)) segs) (enumerate (Suc 0) rest)
         = map (\<lambda>(k, segs). map (shiftSegment ((?F ^^ k) (?F offset))) segs) (enumerate 0 rest)"
    by (simp add: enumerate_Suc_eq split_def sw)
  show ?case
    using Cons.IH [OF cs, of "i + 1" "f32 (offset + step)" "segments @ map (shiftSegment offset) segs"] c e
    by (simp add: segss)
qed

text \<open>
  Claim C5, as the program has it. In chunked mode, when the recogniser returns the
  segment lists \<open>segss\<close> for the chunks, the driver calls it on the chunks in order, and
  the global segment list (before de-duplication) is the concatenation, in chunk order,
  of the per-chunk lists in which every segment of chunk \<open>i\<close> has its start and its end
  replaced by the \<^verbatim>\<open>float32\<close> sum of its value and the offset \<open>o_i\<close>. The offset \<open>o_i\<close>
  is the result of \<open>i\<close> \<^verbatim>\<open>float32\<close> additions of \<^verbatim>\<open>float32(win - ovl)\<close>, from 0; it is
  \<open>i * (windowSec - overlapSec)\<close> as long as that product is below \<open>2^24\<close>.
\<close>

theorem rebase_by_chunk_offset:
  assumes "map (transcribe engine) chunks = map Some segss"
  shows "rebaseLoop engine (f32 (real_of_int (wrapInt (win - ovl)))) 0 0 [] chunks =
     (chunks,
      Inr (concat (map (\<lambda>(i, segs).
                          map (shiftSegment (offsetAt (f32 (real_of_int (wrapInt (win - ovl)))) i)) segs)
                       (enumerate 0 segss)))) \<and>
   (\<forall>i. 0 \<le> win - ovl \<and> int i * (win - ovl) < 2 ^ 24 \<longrightarrow>
        offsetAt (f32 (real_of_int (wrapInt (win - ovl)))) i = real_of_int (int i * (win - ovl))) \<and>
   (\<forall>offset s. Start (shiftSegment offset s) = f32 (Start s + offset) \<and>
               End (shiftSegment offset s) = f32 (End s + offset) \<and>
               Text (shiftSegment offset s) = Text s)"
proof (intro conjI allI impI)
  show "rebaseLoop engine (f32 (real_of_int (wrapInt (win - ovl)))) 0 0 [] chunks =
     (chunks,
      Inr (concat (map (\<lambda>(i, segs).
                          map (shiftSegment (offsetAt (f32 (real_of_int (wrapInt (win - ovl)))) i)) segs)
                       (enumerate 0 segss))))"
    using rebaseLoop_all [OF assms, of "f32 (real_of_int (wrapInt (win - ovl)))" 0 0 "[]"]
    by (simp add: offsetAt_funpow)
next
  fix i
  assume a: "0 \<le> win - ovl \<and> int i * (win - ovl) < 2 ^ 24"
  show "offsetAt (f32 (real_of_int (wrapInt (win - ovl)))) i = real_of_int (int i * (win - ovl))"
  proof (cases i)
    case 0
    then show ?thesis by simp
  next
    case (Suc j)
    have "int i * (win - ovl) = (win - ovl) + int j * (win - ovl)"
      by (simp add: Suc algebra_simps)
    moreover have "0 \<le> int j * (win - ovl)" using a by simp
    ultimately have "win - ovl \<le> int i * (win - ovl)" by linarith
    then have "win - ovl < 2 ^ 63" using a by simp
    then have "wrapInt (win - ovl) = win - ovl" using a by (intro wrapInt_id) simp_all
    then show ?thesis using offsetAt_exact [of "win - ovl" i] a by simp
  qed
next
  fix offset s
  show "Start (shiftSegment offset s) = f32 (Start s + offset)"
    "End (shiftSegment offset s) = f32 (End s + offset)"
    "Text (shiftSegment offset s) = Text s"
    by (simp_all add: shiftSegment_def)
qed

theorem rebase_by_chunk_offset_witness:
  "map (transcribe (\<lambda>c. Some [\<lparr>Start = 0, End = 1, Text = ''hello world''\<rparr>]))
       [[1 :: real], [2], [3]]
     = map Some [[\<lparr>Start = 0, End = 1, Text = ''hello world''\<rparr>],
                 [\<lparr>Start = 0, End = 1, Text = ''hello world''\<rparr>],
                 [\<lparr>Start = 0, End = 1, Text = ''hello world''\<rparr>]] \<and>
   rebaseLoop (\<lambda>c. Some [\<lparr>Start = 0, End = 1, Text = ''hello world''\<rparr>])
       (f32 (real_of_int (wrapInt (60 - 1)))) 0 0 [] [[1 :: real], [2], [3]]
     = ([[1], [2], [3]],
        Inr [\<lparr>Start = 0, End = 1, Text = ''hello world''\<rparr>,
             \<lparr>Start = 59, End = 60, Text = ''hello world''\<rparr>,
             \<lparr>Start = 118, End = 119, Text = ''hello world''\<rparr>]) \<and>
   (0 :: int) \<le> 60 - 1 \<and> int 2 * (60 - 1) < 2 ^ 24 \<and>
   offsetAt (f32 (real_of_int (wrapInt (60 - 1)))) 2 = 118"
proof -
  have h: "map (transcribe (\<lambda>c. Some [\<lparr>Start = 0, End = 1, Text = ''hello world''\<rparr>]))
       [[1 :: real], [2], [3]]
     = map Some [[\<lparr>Start = 0, End = 1, Text = ''hello world''\<rparr>],
                 [\<lparr>Start = 0, End = 1, Text = ''hello world''\<rparr>],
                 [\<lparr>Start = 0, End = 1, Text = ''hello world''\<rparr>]]"
    by (simp add: transcribe_def TrimSpace_def isSpace_def)
  have e: "rebaseLoop (\<lambda>c. Some [\<lparr>Start = 0, End = 1, Text = ''hello world''\<rparr>])
       (f32 (real_of_int (wrapInt (60 - 1)))) 0 0 [] [[1 :: real], [2], [3]]
     = ([[1], [2], [3]],
        Inr [\<lparr>Start = 0, End = 1, Text = ''hello world''\<rparr>,
             \<lparr>Start = 59, End = 60, Text = ''hello world''\<rparr>,
             \<lparr>Start = 118, End = 119, Text = ''hello world''\<rparr>])"
    by code_simp
  have o: "offsetAt (f32 (real_of_int (wrapInt (60 - 1)))) 2 = real_of_int (int 2 * (60 - 1))"
    using rebase_by_chunk_offset [OF h, of 60 1, THEN conjunct2, THEN conjunct1, rule_format, of 2]
    by simp
  show ?thesis
    using h e o by simp
qed

text \<open>
  The sum is not the exact one. The \<^verbatim>\<open>float32\<close> nearest to 0.1 is \<open>13421773 / 2^27\<close>; a
  segment of the second chunk that starts there is given, with a window of 60 and an
  overlap of 1 second, the start \<open>7746355 / 2^17\<close>, the \<^verbatim>\<open>float32\<close> nearest to the sum
  with 59, not the sum.
\<close>

theorem rebase_rounds_to_float32:
  "rebaseLoop (\<lambda>c. Some [\<lparr>Start = 13421773 / 134217728, End = 1, Text = ''hi''\<rparr>])
       (f32 (real_of_int (wrapInt (60 - 1)))) 0 0 [] [[0 :: real], [0]]
     = ([[0], [0]],
        Inr [\<lparr>Start = 13421773 / 134217728, End = 1, Text = ''hi''\<rparr>,
             \<lparr>Start = 7746355 / 131072, End = 60, Text = ''hi''\<rparr>]) \<and>
   (7746355 / 131072 :: real) \<noteq> 13421773 / 134217728 + 59"
  by (intro conjI; code_simp)

subsection \<open>Whole-file mode and the validation of the window\<close>

lemma rebaseLoop_calls_result:
  "rebaseLoop engine step i offset segments chunks = (calls, r) \<Longrightarrow> r \<noteq> Inl WindowNotGreaterThanOverlap"
proof (induction chunks arbitrary: i offset segments calls r)
  case Nil
  then show ?case by auto
next
  case (Cons c cs)
  then show ?case
    by (auto split: option.splits prod.splits simp: Let_def)
qed

lemma chunkLoop_not_config: "chunkLoop pcm win ovl start \<noteq> Inl WindowNotGreaterThanOverlap"
proof (induction pcm win ovl start rule: chunkLoop.induct)
  case (1 pcm win ovl start)
  show ?case
    apply (subst chunkLoop.simps)
    using 1 by (auto simp: Let_def split: sum.splits)
qed

text \<open>
  Claim C8, as the program has it. If \<open>windowSec \<le> 0\<close> the whole buffer is handed to the
  recogniser as one chunk, its segments are taken with their time stamps unchanged
  (offset 0) and are not de-duplicated. If \<open>windowSec > 0\<close>, the run fails with the
  configuration error, before the recogniser is called on any chunk, exactly when
  \<open>windowSec \<le> overlapSec\<close>. The sign of \<open>overlapSec\<close> is not checked.
\<close>

theorem window_validation:
  "(windowSec flags \<le> 0 \<longrightarrow>
      collectSegments flags engine pcm =
        ([pcm], case transcribe engine pcm of None \<Rightarrow> Inl TranscribeFailed | Some segs \<Rightarrow> Inr segs)) \<and>
   (0 < windowSec flags \<and> windowSec flags \<le> overlapSec flags \<longrightarrow>
      collectSegments flags engine pcm = ([], Inl WindowNotGreaterThanOverlap)) \<and>
   (0 < windowSec flags \<and> overlapSec flags < windowSec flags \<longrightarrow>
      snd (collectSegments flags engine pcm) \<noteq> Inl WindowNotGreaterThanOverlap)"
proof (intro conjI impI)
  assume "windowSec flags \<le> 0"
  then show "collectSegments flags engine pcm =
        ([pcm], case transcribe engine pcm of None \<Rightarrow> Inl TranscribeFailed | Some segs \<Rightarrow> Inr segs)"
    by (simp add: collectSegments_def split: option.splits)
next
  assume "0 < windowSec flags \<and> windowSec flags \<le> overlapSec flags"
  then show "collectSegments flags engine pcm = ([], Inl WindowNotGreaterThanOverlap)"
    by (simp add: collectSegments_def)
next
  assume a: "0 < windowSec flags \<and> overlapSec flags < windowSec flags"
  show "snd (collectSegments flags engine pcm) \<noteq> Inl WindowNotGreaterThanOverlap"
  proof (cases "chunkPCM pcm 16000 (windowSec flags) (overlapSec flags)")
    case (Inl e)
    then have "e \<noteq> WindowNotGreaterThanOverlap"
      using chunkLoop_not_config [of pcm "wrapInt (windowSec flags * 16000)"
          "wrapInt (overlapSec flags * 16000)" 0]
      by (auto simp: chunkPCM_def Let_def split: if_splits)
    with Inl a show ?thesis by (simp add: collectSegments_def)
  next
    case (Inr chunks)
    obtain calls r where r: "rebaseLoop engine
        (f32 (real_of_int (wrapInt (windowSec flags - overlapSec flags)))) 0 0 [] chunks = (calls, r)"
      by (cases "rebaseLoop engine
        (f32 (real_of_int (wrapInt (windowSec flags - overlapSec flags)))) 0 0 [] chunks")
    from rebaseLoop_calls_result [OF r] have "r \<noteq> Inl WindowNotGreaterThanOverlap" .
    with Inr a r show ?thesis
      by (cases r) (simp_all add: collectSegments_def)
  qed
qed

theorem window_validation_witness:
  "collectSegments \<lparr>windowSec = 0, overlapSec = 1, maxChars = 42, maxLines = 2, srt = False\<rparr>
     (\<lambda>c. Some [\<lparr>Start = 0, End = 1, Text = ''hello''\<rparr>, \<lparr>Start = 0, End = 1, Text = ''hello''\<rparr>])
     [0 :: real, 0]
   = ([[0, 0]], Inr [\<lparr>Start = 0, End = 1, Text = ''hello''\<rparr>, \<lparr>Start = 0, End = 1, Text = ''hello''\<rparr>]) \<and>
   collectSegments \<lparr>windowSec = 1, overlapSec = 1, maxChars = 42, maxLines = 2, srt = False\<rparr>
     (\<lambda>c. Some []) [0 :: real, 0]
   = ([], Inl WindowNotGreaterThanOverlap) \<and>
   snd (collectSegments \<lparr>windowSec = 2, overlapSec = 1, maxChars = 42, maxLines = 2, srt = False\<rparr>
     (\<lambda>c. Some []) [0 :: real, 0]) \<noteq> Inl WindowNotGreaterThanOverlap"
  using
    window_validation [of "\<lparr>windowSec = 0, overlapSec = 1, maxChars = 42, maxLines = 2, srt = False\<rparr>"
      "\<lambda>c. Some [\<lparr>Start = 0, End = 1, Text = ''hello''\<rparr>, \<lparr>Start = 0, End = 1, Text = ''hello''\<rparr>]"
      "[0 :: real, 0]"]
    window_validation [of "\<lparr>windowSec = 1, overlapSec = 1, maxChars = 42, maxLines = 2, srt = False\<rparr>"
      "\<lambda>c. Some []" "[0 :: real, 0]"]
    window_validation [of "\<lparr>windowSec = 2, overlapSec = 1, maxChars = 42, maxLines = 2, srt = False\<rparr>"
      "\<lambda>c. Some []" "[0 :: real, 0]"]
  by (simp add: transcribe_def TrimSpace_def isSpace_def)

text \<open>
  A negative overlap is accepted: with a window of one second and an overlap of minus
  one second the run does not fail, and of a buffer of 16001 samples only the first
  16000 are handed to the recogniser.
\<close>

theorem negative_overlap_accepted:
  "collectSegments \<lparr>windowSec = 1, overlapSec = - 1, maxChars = 42, maxLines = 2, srt = False\<rparr>
     (\<lambda>c. Some []) (replicate 16001 (0::real))
   = ([replicate 16000 0], Inr [])"
  by (simp add: collectSegments_def chunkPCM_def chunkLoop.simps [of _ _ _ 0]
      chunkLoop.simps [of _ _ _ 32000] wrapInt_def Let_def slice_def transcribe_def
      dedupeOverlap_def)

subsection \<open>The caption writers\<close>























subsection \<open>Windowing\<close>

lemma chunkLoop_shape:
  assumes "0 \<le> ovl" "ovl < win" "int (length pcm) + win < 2 ^ 63"
    "0 \<le> start" "start < int (length pcm)"
  shows
    "\<exists>n>0. chunkLoop pcm win ovl start =
             Inr (map (\<lambda>k. slice pcm (start + int k * (win - ovl))
                                   (min (start + int k * (win - ovl) + win) (int (length pcm))))
                      [0..<n]) \<and>
           int (length pcm) \<le> start + int (n - 1) * (win - ovl) + win \<and>
           start + int (n - 1) * (win - ovl) < int (length pcm) \<and>
           (\<forall>k<n - 1. start + int k * (win - ovl) + win < int (length pcm))"
  using assms
proof (induction pcm win ovl start rule: chunkLoop.induct)
  case (1 pcm win ovl start)
  let ?L = "int (length pcm)"
  let ?step = "win - ovl"
  have st: "0 \<le> ovl" "ovl < win" "?L + win < 2 ^ 63" "0 \<le> start" "start < ?L"
    using "1.prems" by simp_all
  have w1: "wrapInt ?step = ?step" using st by (intro wrapInt_id) simp_all
  have w2: "wrapInt (start + win) = start + win" using st by (intro wrapInt_id) simp_all
  have w3: "wrapInt (start + ?step) = start + ?step" using st by (intro wrapInt_id) simp_all
  show ?case
  proof (cases "start + win < ?L")
    case False
    then have "chunkLoop pcm win ovl start = Inr [slice pcm start ?L]"
      using st by (subst chunkLoop.simps) (auto simp: Let_def w1 w2 w3)
    moreover have "min (start + win) ?L = ?L" using False by simp
    ultimately show ?thesis
      using False st(5) by (intro exI [of _ 1]) simp
  next
    case True
    let ?s' = "start + ?step"
    have s': "0 \<le> ?s'" "?s' < ?L" using True st by simp_all
    have e: "start + win = (if wrapInt (start + win) > ?L then ?L else wrapInt (start + win))"
      using True by (simp add: w2)
    have c1: "\<not> (start < 0 \<or> start + win < start)" using st by simp
    have c2: "start + win \<noteq> ?L" using True by simp
    have c3: "wrapInt ?step \<noteq> 0" using st by (simp add: w1)
    have "\<exists>n>0. chunkLoop pcm win ovl (wrapInt (start + wrapInt ?step)) =
             Inr (map (\<lambda>k. slice pcm (wrapInt (start + wrapInt ?step) + int k * ?step)
                        (min (wrapInt (start + wrapInt ?step) + int k * ?step + win) ?L))
                      [0..<n]) \<and>
           ?L \<le> wrapInt (start + wrapInt ?step) + int (n - 1) * ?step + win \<and>
           wrapInt (start + wrapInt ?step) + int (n - 1) * ?step < ?L \<and>
           (\<forall>k<n - 1. wrapInt (start + wrapInt ?step) + int k * ?step + win < ?L)"
      using st s' by (intro "1.IH" [OF st(5) e c1 c2 c3]) (simp_all add: w1 w3)
    then obtain n where n: "0 < n"
      and r: "chunkLoop pcm win ovl ?s' =
             Inr (map (\<lambda>k. slice pcm (?s' + int k * ?step) (min (?s' + int k * ?step + win) ?L))
                      [0..<n])"
      and last: "?L \<le> ?s' + int (n - 1) * ?step + win" "?s' + int (n - 1) * ?step < ?L"
      and before: "\<forall>k<n - 1. ?s' + int k * ?step + win < ?L"
      unfolding w1 w3 by blast
    have unfold: "chunkLoop pcm win ovl start =
        Inr (slice pcm start (start + win) #
             map (\<lambda>k. slice pcm (?s' + int k * ?step) (min (?s' + int k * ?step + win) ?L)) [0..<n])"
      using True st r by (subst chunkLoop.simps) (simp add: Let_def w1 w2 w3)
    have shift: "\<And>k. ?s' + int k * ?step = start + int (Suc k) * ?step"
      by (simp add: algebra_simps)
    have m: "map (\<lambda>k. slice pcm (start + int k * ?step) (min (start + int k * ?step + win) ?L)) [0..<Suc n]
        = slice pcm start (start + win) #
          map (\<lambda>k. slice pcm (?s' + int k * ?step) (min (?s' + int k * ?step + win) ?L)) [0..<n]"
      using True by (simp only: upt_conv_Cons [OF zero_less_Suc] list.map map_Suc_upt [symmetric] map_map o_def shift) simp
    have l1: "?L \<le> start + int (Suc n - 1) * ?step + win"
      using last(1) n by (simp add: algebra_simps of_nat_diff)
    have l2: "start + int (Suc n - 1) * ?step < ?L"
      using last(2) n by (simp add: algebra_simps of_nat_diff)
    have l3: "\<forall>k<Suc n - 1. start + int k * ?step + win < ?L"
    proof (intro allI impI)
      fix k assume k: "k < Suc n - 1"
      show "start + int k * ?step + win < ?L"
      proof (cases k)
        case 0
        with True show ?thesis by simp
      next
        case (Suc j)
        with k have "j < n - 1" by simp
        with before have "?s' + int j * ?step + win < ?L" by blast
        then show ?thesis unfolding shift Suc .
      qed
    qed
    show ?thesis
      using unfold m l1 l2 l3 by (intro exI [of _ "Suc n"]) (simp del: upt_Suc)
  qed
qed

lemma slice_nth:
  assumes "0 \<le> a" "a \<le> i" "i < b" "b \<le> int (length pcm)"
  shows "slice pcm a b ! nat (i - a) = pcm ! nat i"
proof -
  have "nat (i - a) < nat (b - a)" using assms by simp
  moreover have "nat a + nat (i - a) = nat i" using assms by simp
  ultimately show ?thesis
    using assms by (simp add: slice_def)
qed

lemma slice_length:
  assumes "0 \<le> a" "a \<le> b" "b \<le> int (length pcm)"
  shows "int (length (slice pcm a b)) = b - a"
  using assms by (simp add: slice_def)

lemma scenario_125s:
  assumes "length pcm = 2000000"
  shows "chunkPCM pcm 16000 60 1 =
           Inr [slice pcm 0 960000, slice pcm 944000 1904000, slice pcm 1888000 2000000]"
proof -
  have 3: "chunkLoop pcm 960000 16000 1888000 = Inr [slice pcm 1888000 2000000]"
    using assms by (subst chunkLoop.simps) (simp add: wrapInt_def)
  have 2: "chunkLoop pcm 960000 16000 944000 =
             Inr [slice pcm 944000 1904000, slice pcm 1888000 2000000]"
    using assms 3 by (subst chunkLoop.simps) (simp add: wrapInt_def)
  have 1: "chunkLoop pcm 960000 16000 0 =
             Inr [slice pcm 0 960000, slice pcm 944000 1904000, slice pcm 1888000 2000000]"
    using assms 2 by (subst chunkLoop.simps) (simp add: wrapInt_def)
  then show ?thesis by (simp add: chunkPCM_def wrapInt_def)
qed

lemma cover_arith:
  fixes step win L i :: int and n :: nat
  assumes step: "0 < step" "step \<le> win" and n: "0 < n"
    and last: "L \<le> int (n - 1) * step + win"
    and i: "0 \<le> i" "i < L"
  shows "\<exists>k<n. int k * step \<le> i \<and> i < min (int k * step + win) L"
proof -
  define q where "q = i div step"
  have q0: "0 \<le> q" using i step by (simp add: q_def pos_imp_zdiv_nonneg_iff)
  have e: "i = q * step + i mod step" by (simp add: q_def)
  have m: "0 \<le> i mod step" "i mod step < step" using step by simp_all
  have lo: "q * step \<le> i" using e m by linarith
  have hi: "i < q * step + step" using e m by linarith
  show ?thesis
  proof (cases "nat q \<le> n - 1")
    case True
    then have "nat q < n" using n by simp
    moreover have "int (nat q) * step \<le> i" using q0 lo by simp
    moreover have "i < min (int (nat q) * step + win) L" using q0 hi step i by simp
    ultimately show ?thesis by blast
  next
    case False
    then have "int (n - 1) \<le> q" by simp
    then have "int (n - 1) * step \<le> q * step"
      using step by (simp add: mult_right_mono)
    then have "int (n - 1) * step \<le> i" using lo by simp
    moreover have "i < min (int (n - 1) * step + win) L" using last i by simp
    moreover have "n - 1 < n" using n by simp
    ultimately show ?thesis by blast
  qed
qed

text \<open>
  Claim C4, as the program has it. For a non-empty buffer of \<open>L\<close> samples and
  \<open>windowSec > overlapSec \<ge> 0\<close> (in particular \<open>overlapSec > 0\<close>) such that
  \<open>windowSec * sampleRate + L\<close> is below \<open>2^63\<close>, so that the sample arithmetic does not
  wrap around, \<^verbatim>\<open>chunkPCM\<close> returns \<open>n > 0\<close> chunks; chunk \<open>k\<close> is
  the slice from sample \<open>k * (windowSec - overlapSec) * sampleRate\<close> of
  \<open>windowSec * sampleRate\<close> samples, clipped to \<open>L\<close>. The last chunk ends at \<open>L\<close> and
  no earlier chunk reaches \<open>L\<close>; the starts increase strictly; each chunk starts no
  later than the previous one ends, and every sample of the buffer lies, at its place, in
  some chunk. A buffer of 125 seconds at 16 kHz with a window of 60 and an overlap of 1
  second gives the three chunks starting at seconds 0, 59 and 118, the last ending at
  second 125.
\<close>

theorem chunkPCM_windows:
  assumes "pcm \<noteq> []" "0 \<le> ov" "ov < w" "0 < sr" "w * sr + int (length pcm) < 2 ^ 63"
  shows "(\<exists>n>0.
     chunkPCM pcm sr w ov =
       Inr (map (\<lambda>k. slice pcm (chunkStart sr w ov k) (chunkEnd (int (length pcm)) sr w ov k)) [0..<n]) \<and>
     chunkEnd (int (length pcm)) sr w ov (n - 1) = int (length pcm) \<and>
     (\<forall>k<n - 1. chunkEnd (int (length pcm)) sr w ov k < int (length pcm)) \<and>
     (\<forall>k<n. 0 \<le> chunkStart sr w ov k \<and> chunkStart sr w ov k < int (length pcm) \<and>
            int (length (slice pcm (chunkStart sr w ov k) (chunkEnd (int (length pcm)) sr w ov k))) =
              min (w * sr) (int (length pcm) - chunkStart sr w ov k)) \<and>
     (\<forall>k. Suc k < n \<longrightarrow> chunkStart sr w ov k < chunkStart sr w ov (Suc k) \<and>
                         chunkStart sr w ov (Suc k) \<le> chunkEnd (int (length pcm)) sr w ov k) \<and>
     (\<forall>i<length pcm. \<exists>k<n.
         chunkStart sr w ov k \<le> int i \<and> int i < chunkEnd (int (length pcm)) sr w ov k \<and>
         slice pcm (chunkStart sr w ov k) (chunkEnd (int (length pcm)) sr w ov k)
           ! nat (int i - chunkStart sr w ov k) = pcm ! i)) \<and>
   (length pcm = 2000000 \<and> sr = 16000 \<and> w = 60 \<and> ov = 1 \<longrightarrow>
      chunkPCM pcm sr w ov =
        Inr [slice pcm 0 960000, slice pcm 944000 1904000, slice pcm 1888000 2000000])"
    (is "?windows \<and> ?scenario")
proof -
  let ?L = "int (length pcm)"
  define win where "win = w * sr"
  define ovl where "ovl = ov * sr"
  have ovl: "0 \<le> ovl" "ovl < win" using assms by (simp_all add: win_def ovl_def)
  have win: "0 < win" using ovl by simp
  have step: "win - ovl = (w - ov) * sr" by (simp add: win_def ovl_def algebra_simps)
  have L: "0 < ?L" using assms by simp
  have fit: "?L + win < 2 ^ 63" using assms(5) by (simp add: win_def)
  have ww: "wrapInt win = win" using fit win L by (intro wrapInt_id) simp_all
  have wo: "wrapInt ovl = ovl" using fit ovl L by (intro wrapInt_id) simp_all
  from chunkLoop_shape [OF ovl fit, of 0] L obtain n where n: "0 < n"
    and r: "chunkLoop pcm win ovl 0 =
             Inr (map (\<lambda>k. slice pcm (0 + int k * (win - ovl))
                                   (min (0 + int k * (win - ovl) + win) ?L)) [0..<n])"
    and last: "?L \<le> 0 + int (n - 1) * (win - ovl) + win" "0 + int (n - 1) * (win - ovl) < ?L"
    and before: "\<forall>k<n - 1. 0 + int k * (win - ovl) + win < ?L"
    by auto
  have cs: "\<And>k. chunkStart sr w ov k = int k * (win - ovl)"
    by (simp add: chunkStart_def step)
  have ce: "\<And>k. chunkEnd ?L sr w ov k = min (int k * (win - ovl) + win) ?L"
    by (simp add: chunkEnd_def cs win_def)
  have c1: "chunkPCM pcm sr w ov =
       Inr (map (\<lambda>k. slice pcm (chunkStart sr w ov k) (chunkEnd ?L sr w ov k)) [0..<n])"
    using r win by (simp add: chunkPCM_def Let_def cs ce win_def [symmetric] ovl_def [symmetric] ww wo)
  have c2: "chunkEnd ?L sr w ov (n - 1) = ?L"
    using last by (simp add: ce)
  have c3: "\<forall>k<n - 1. chunkEnd ?L sr w ov k < ?L"
    using before by (simp add: ce)
  have mono: "\<And>k. k < n \<Longrightarrow> int k * (win - ovl) \<le> int (n - 1) * (win - ovl)"
    using ovl by (intro mult_right_mono) auto
  have c4: "\<forall>k<n. 0 \<le> chunkStart sr w ov k \<and> chunkStart sr w ov k < ?L \<and>
            int (length (slice pcm (chunkStart sr w ov k) (chunkEnd ?L sr w ov k))) =
              min (w * sr) (?L - chunkStart sr w ov k)"
  proof (intro allI impI)
    fix k assume k: "k < n"
    have a: "0 \<le> int k * (win - ovl)" using ovl by simp
    have b: "int k * (win - ovl) < ?L" using mono [OF k] last(2) by simp
    have "int (length (slice pcm (int k * (win - ovl)) (min (int k * (win - ovl) + win) ?L)))
          = min (int k * (win - ovl) + win) ?L - int k * (win - ovl)"
      using a b win by (intro slice_length) simp_all
    then show "0 \<le> chunkStart sr w ov k \<and> chunkStart sr w ov k < ?L \<and>
            int (length (slice pcm (chunkStart sr w ov k) (chunkEnd ?L sr w ov k))) =
              min (w * sr) (?L - chunkStart sr w ov k)"
      using a b by (simp add: cs ce win_def [symmetric])
  qed
  have c5: "\<forall>k. Suc k < n \<longrightarrow> chunkStart sr w ov k < chunkStart sr w ov (Suc k) \<and>
                         chunkStart sr w ov (Suc k) \<le> chunkEnd ?L sr w ov k"
  proof (intro allI impI)
    fix k assume k: "Suc k < n"
    then have "k < n - 1" by simp
    with before have "int k * (win - ovl) + win < ?L" by simp
    then show "chunkStart sr w ov k < chunkStart sr w ov (Suc k) \<and>
               chunkStart sr w ov (Suc k) \<le> chunkEnd ?L sr w ov k"
      using ovl by (simp add: cs ce algebra_simps)
  qed
  have c6: "\<forall>i<length pcm. \<exists>k<n.
         chunkStart sr w ov k \<le> int i \<and> int i < chunkEnd ?L sr w ov k \<and>
         slice pcm (chunkStart sr w ov k) (chunkEnd ?L sr w ov k)
           ! nat (int i - chunkStart sr w ov k) = pcm ! i"
  proof (intro allI impI)
    fix i assume i: "i < length pcm"
    have "\<exists>k<n. int k * (win - ovl) \<le> int i \<and> int i < min (int k * (win - ovl) + win) ?L"
      using ovl n last(1) i by (intro cover_arith) simp_all
    then obtain k where k: "k < n" "int k * (win - ovl) \<le> int i"
      "int i < min (int k * (win - ovl) + win) ?L" by blast
    have "slice pcm (int k * (win - ovl)) (min (int k * (win - ovl) + win) ?L)
            ! nat (int i - int k * (win - ovl)) = pcm ! nat (int i)"
      using k ovl by (intro slice_nth) simp_all
    with k show "\<exists>k<n.
         chunkStart sr w ov k \<le> int i \<and> int i < chunkEnd ?L sr w ov k \<and>
         slice pcm (chunkStart sr w ov k) (chunkEnd ?L sr w ov k)
           ! nat (int i - chunkStart sr w ov k) = pcm ! i"
      by (auto simp: cs ce)
  qed
  from n c1 c2 c3 c4 c5 c6 have ?windows by blast
  moreover have ?scenario using scenario_125s by blast
  ultimately show ?thesis by blast
qed

theorem chunkPCM_windows_witness:
  "replicate 2000000 (0 :: real) \<noteq> [] \<and> (0 :: int) \<le> 1 \<and> (1 :: int) < 60 \<and> (0 :: int) < 16000 \<and>
   (60 :: int) * 16000 + int (length (replicate 2000000 (0 :: real))) < 2 ^ 63 \<and>
   length (replicate 2000000 (0 :: real)) = 2000000 \<and>
   chunkPCM (replicate 2000000 (0 :: real)) 16000 60 1 =
     Inr [replicate 960000 0, replicate 960000 0, replicate 112000 0]"
  using chunkPCM_windows [of "replicate 2000000 (0 :: real)" 1 60 16000, THEN conjunct2]
  by (simp add: slice_def)

text \<open>
  Without the bound the windows are not those of the claim. On a 64-bit platform the
  product \<open>48422703193487573 * 16000\<close> wraps around to 128: with that window and an
  overlap of one second the stride is \<open>128 - 16000\<close>, and after the chunk of the first
  128 samples the loop slices from a negative index and panics.
\<close>

theorem chunkPCM_window_product_wraps:
  "wrapInt (48422703193487573 * 16000) = 128 \<and>
   chunkPCM (replicate 2000000 (0 :: real)) 16000 48422703193487573 1 = Inl SliceBounds"
  by (simp add: chunkPCM_def wrapInt_def chunkLoop.simps [of _ _ _ 0]
      chunkLoop.simps [of _ _ _ "- 15872"] Let_def)
subsection \<open>Word wrapping\<close>

lemma isSpace_space: "isSpace CHR '' ''"
  by (simp add: isSpace_def)

lemma fieldsFrom_good:
  "w \<in> set (fieldsFrom cur s) \<Longrightarrow> \<forall>c\<in>set cur. \<not> isSpace c \<Longrightarrow>
   w \<noteq> [] \<and> (\<forall>c\<in>set w. \<not> isSpace c)"
proof (induction s arbitrary: cur)
  case Nil
  then show ?case by (auto split: if_splits)
next
  case (Cons a s)
  show ?case
  proof (cases "isSpace a")
    case True
    with Cons.prems have "w = cur \<and> cur \<noteq> [] \<or> w \<in> set (fieldsFrom [] s)"
      by (auto split: if_splits)
    then show ?thesis
      using Cons.IH [of "[]"] Cons.prems(2) by auto
  next
    case False
    with Cons.prems have "w \<in> set (fieldsFrom (cur @ [a]) s)" by simp
    then show ?thesis
      using Cons.IH [of "cur @ [a]"] Cons.prems(2) False by auto
  qed
qed

lemma Fields_good: "w \<in> set (Fields s) \<Longrightarrow> w \<noteq> [] \<and> (\<forall>c\<in>set w. \<not> isSpace c)"
  using fieldsFrom_good [of w "[]" s] by (simp add: Fields_def)

lemma Fields_no_space: "w \<in> set (Fields s) \<Longrightarrow> CHR '' '' \<notin> set w"
  using Fields_good [of w s] isSpace_space by blast

lemma fieldsFrom_nonspace:
  "\<forall>c\<in>set w. \<not> isSpace c \<Longrightarrow> fieldsFrom cur (w @ rest) = fieldsFrom (cur @ w) rest"
  by (induction w arbitrary: cur) simp_all

lemma fieldsFrom_Join:
  "\<forall>w\<in>set ws. w \<noteq> [] \<and> (\<forall>c\<in>set w. \<not> isSpace c) \<Longrightarrow>
   fieldsFrom cur (Join ws) =
     (case ws of [] \<Rightarrow> (if cur = [] then [] else [cur]) | w # rest \<Rightarrow> (cur @ w) # rest)"
proof (induction ws arbitrary: cur rule: Join.induct)
  case 1
  then show ?case by simp
next
  case (2 w)
  then show ?case
    using fieldsFrom_nonspace [of w cur "[]"] by simp
next
  case (3 w v ws)
  have "fieldsFrom cur (Join (w # v # ws)) = fieldsFrom (cur @ w) (CHR '' '' # Join (v # ws))"
    using 3(2) fieldsFrom_nonspace [of w cur "CHR '' '' # Join (v # ws)"] by simp
  also have "\<dots> = (cur @ w) # fieldsFrom [] (Join (v # ws))"
    using 3(2) by (simp add: isSpace_space)
  also have "fieldsFrom [] (Join (v # ws)) = v # ws"
    using 3(1) [of "[]"] 3(2) by simp
  finally show ?case by simp
qed

lemma Fields_Join:
  "\<forall>w\<in>set ws. w \<noteq> [] \<and> (\<forall>c\<in>set w. \<not> isSpace c) \<Longrightarrow> Fields (Join ws) = ws"
  using fieldsFrom_Join [of ws "[]"] by (cases ws) (simp_all add: Fields_def)

lemma Join_Cons: "ws \<noteq> [] \<Longrightarrow> Join (w # ws) = w @ CHR '' '' # Join ws"
  by (cases ws) simp_all

lemma Join_eq_Nil: "\<forall>w\<in>set ws. w \<noteq> [] \<Longrightarrow> Join ws = [] \<longleftrightarrow> ws = []"
  by (induction ws rule: Join.induct) simp_all

lemma Join_take_at_space:
  "\<forall>w\<in>set ws. w \<noteq> [] \<and> CHR '' '' \<notin> set w \<Longrightarrow> i < length (Join ws) \<Longrightarrow>
   Join ws ! i = CHR '' '' \<Longrightarrow> \<exists>k. 0 < k \<and> k \<le> length ws \<and> take i (Join ws) = Join (take k ws)"
proof (induction ws arbitrary: i rule: Join.induct)
  case 1
  then show ?case by simp
next
  case (2 w)
  then show ?case by (auto simp: in_set_conv_nth)
next
  case (3 w v ws)
  let ?J = "Join (v # ws)"
  have J: "Join (w # v # ws) = w @ CHR '' '' # ?J" by simp
  consider "i < length w" | "i = length w" | "length w < i" by linarith
  then show ?case
  proof cases
    case 1
    then have "Join (w # v # ws) ! i = w ! i" by (simp add: nth_append)
    with 3(4) 1 have "CHR '' '' \<in> set w" by (metis nth_mem)
    with 3(2) show ?thesis by simp
  next
    case 2
    then have "take i (Join (w # v # ws)) = Join (take 1 (w # v # ws))" by simp
    then show ?thesis by (intro exI [of _ 1]) simp
  next
    case 3
    define j where "j = i - length w - 1"
    have i: "i = length w + 1 + j" using 3 by (simp add: j_def)
    have jl: "j < length ?J" using \<open>i < length (Join (w # v # ws))\<close> by (simp add: i)
    have jc: "?J ! j = CHR '' ''" using \<open>Join (w # v # ws) ! i = CHR '' ''\<close>
      by (simp add: i nth_append)
    from "3.IH" [OF _ jl jc] "3.prems"(1) obtain k where
      k: "0 < k" "k \<le> length (v # ws)" "take j ?J = Join (take k (v # ws))" by auto
    have ne: "take k (v # ws) \<noteq> []" using k(1) by simp
    have "take i (Join (w # v # ws)) = w @ CHR '' '' # take j ?J"
      by (simp add: i)
    also have "\<dots> = Join (w # take k (v # ws))"
      using ne by (simp add: k(3) Join_Cons)
    also have "\<dots> = Join (take (Suc k) (w # v # ws))" by simp
    finally show ?thesis using k(2) by (intro exI [of _ "Suc k"]) simp
  qed
qed

lemma takeWhile_neq_less:
  "x \<in> set xs \<Longrightarrow> length (takeWhile (\<lambda>c. c \<noteq> x) xs) < length xs"
  by (induction xs) auto

lemma LastIndex_found:
  assumes "0 \<le> LastIndex t"
  shows "nat (LastIndex t) < length t \<and> t ! nat (LastIndex t) = CHR '' ''"
proof -
  have m: "CHR '' '' \<in> set t" using assms by (auto simp: LastIndex_def split: if_splits)
  let ?p = "takeWhile (\<lambda>c. c \<noteq> CHR '' '') (rev t)"
  have lt: "length ?p < length t"
    using m takeWhile_neq_less [of "CHR '' ''" "rev t"] by simp
  have at: "rev t ! length ?p = CHR '' ''"
    using lt nth_length_takeWhile [of "\<lambda>c. c \<noteq> CHR '' ''" "rev t"] by simp
  have n: "nat (LastIndex t) = length t - Suc (length ?p)"
    using m lt by (simp add: LastIndex_def)
  have "rev t ! length ?p = t ! (length t - Suc (length ?p))"
    using lt by (simp add: rev_nth)
  with at n lt show ?thesis by simp
qed

lemma LastIndex_none: "LastIndex t < 0 \<Longrightarrow> CHR '' '' \<notin> set t"
proof
  assume a: "LastIndex t < 0" and m: "CHR '' '' \<in> set t"
  have "length (takeWhile (\<lambda>c. c \<noteq> CHR '' '') (rev t)) < length t"
    using m takeWhile_neq_less [of "CHR '' ''" "rev t"] by simp
  with a m show False by (simp add: LastIndex_def)
qed

lemma Join_hd:
  "Join (w # rest) = w @ (if rest = [] then [] else CHR '' '' # Join rest)"
  by (cases rest) simp_all

lemma Join_snoc: "us \<noteq> [] \<Longrightarrow> Join (us @ [w]) = Join us @ CHR '' '' # w"
  by (induction us rule: Join.induct) simp_all

lemma softTruncate_cases:
  assumes good: "\<forall>w\<in>set ws. w \<noteq> [] \<and> CHR '' '' \<notin> set w"
    and ne: "ws \<noteq> []" and mc: "0 \<le> mc"
  shows "\<exists>l. softTruncate (Join ws) mc = Inr l \<and>
           ((\<exists>k. 0 < k \<and> k \<le> length ws \<and> l = Join (take k ws) \<and> int (length l) \<le> mc) \<or>
            (int (length l) = mc \<and> CHR '' '' \<notin> set l \<and> prefix l (hd ws)))"
proof (cases "int (length (Join ws)) \<le> mc")
  case True
  then have "softTruncate (Join ws) mc = Inr (Join ws)" by (simp add: softTruncate_def)
  moreover have "0 < length ws \<and> length ws \<le> length ws \<and> Join ws = Join (take (length ws) ws)"
    using ne by simp
  ultimately show ?thesis using True by blast
next
  case False
  let ?s = "Join ws"
  let ?t = "take (nat mc) ?s"
  have lt: "length ?t = nat mc" using False mc by simp
  show ?thesis
  proof (cases "0 < LastIndex ?t")
    case True
    then have r: "softTruncate ?s mc = Inr (take (nat (LastIndex ?t)) ?s)"
      using False mc by (simp add: softTruncate_def Let_def)
    from True LastIndex_found [of ?t] have f: "nat (LastIndex ?t) < length ?t"
      "?t ! nat (LastIndex ?t) = CHR '' ''" by simp_all
    have i1: "nat (LastIndex ?t) < length ?s" using f(1) by simp
    have i2: "?s ! nat (LastIndex ?t) = CHR '' ''" using f by simp
    from Join_take_at_space [OF good i1 i2] obtain k where
      k: "0 < k" "k \<le> length ws" "take (nat (LastIndex ?t)) ?s = Join (take k ws)" by blast
    have "int (length (take (nat (LastIndex ?t)) ?s)) \<le> mc"
      using f(1) lt i1 by simp
    with r k show ?thesis by metis
  next
    case F2: False
    then have r: "softTruncate ?s mc = Inr ?t"
      using False mc by (simp add: softTruncate_def Let_def)
    obtain w rest where ws: "ws = w # rest" using ne by (cases ws) auto
    have w: "w \<noteq> []" "CHR '' '' \<notin> set w" using good ws by simp_all
    have s: "?s = w @ (if rest = [] then [] else CHR '' '' # Join rest)"
      unfolding ws by (rule Join_hd)
    have nosp: "CHR '' '' \<notin> set ?t"
    proof (cases "LastIndex ?t < 0")
      case True
      then show ?thesis by (rule LastIndex_none)
    next
      case False
      with F2 have z: "LastIndex ?t = 0" by simp
      with LastIndex_found [of ?t] have "0 < length ?t" "?t ! 0 = CHR '' ''" by simp_all
      then have "?s ! 0 = CHR '' ''" by simp
      then have "w ! 0 = CHR '' ''" using w(1) by (simp add: s nth_append)
      then have "CHR '' '' \<in> set w" using w(1) by (metis length_greater_0_conv nth_mem)
      with w(2) show ?thesis by simp
    qed
    have le: "nat mc \<le> length w"
    proof (rule ccontr)
      assume "\<not> nat mc \<le> length w"
      then have a: "length w < nat mc" by simp
      then have "rest \<noteq> []" using False s by (auto split: if_splits)
      then have "?s ! length w = CHR '' ''" by (simp add: s nth_append)
      moreover have "length w < length ?t" using a lt by simp
      ultimately have "?t ! length w = CHR '' ''" by simp
      then have "CHR '' '' \<in> set ?t" using \<open>length w < length ?t\<close> by (metis nth_mem)
      with nosp show False by simp
    qed
    have "?t = take (nat mc) w" using le by (simp add: s)
    then have "prefix ?t (hd ws)" by (simp add: ws take_is_prefix)
    moreover have "int (length ?t) = mc" using lt mc by simp
    ultimately show ?thesis using r nosp by blast
  qed
qed

lemma wordsJoinRemainingLoop_subset: "set (wordsJoinRemainingLoop from found ws) \<subseteq> set ws"
  by (induction ws arbitrary: found) auto

lemma capLines_subset: "capLines xs ml = Inr out \<Longrightarrow> set out \<subseteq> set xs"
  by (auto simp: capLines_def split: if_splits dest: in_set_takeD)

lemma capLines_length: "capLines xs ml = Inr out \<Longrightarrow> 0 \<le> ml \<Longrightarrow> int (length out) \<le> ml"
  by (auto simp: capLines_def split: if_splits)

lemma wrapLoop_length:
  "wrapLoop words mc ml lines cur ws = Inr out \<Longrightarrow> 0 \<le> ml \<Longrightarrow> int (length out) \<le> ml"
proof (induction ws arbitrary: lines cur)
  case Nil
  then show ?case using capLines_length by simp
next
  case (Cons w ws)
  then show ?case
    by (auto simp: Let_def split: if_splits sum.splits dest: capLines_length)
qed

lemma packedLine_single: "w \<in> set words \<Longrightarrow> packedLine words mc w"
  unfolding packedLine_def by (intro exI [of _ "[w]"]) simp

lemma packedLine_extend:
  assumes "packedLine words mc cur" "w \<in> set words" "int (length cur) + 1 + int (length w) \<le> mc"
  shows "packedLine words mc (cur @ '' '' @ w)"
proof -
  from assms(1) obtain us where us: "us \<noteq> []" "set us \<subseteq> set words" "cur = Join us"
    unfolding packedLine_def by blast
  have "cur @ '' '' @ w = Join (us @ [w])" using us(1,3) by (simp add: Join_snoc)
  moreover have "int (length (cur @ '' '' @ w)) \<le> mc" using assms(3) by simp
  moreover have "us @ [w] \<noteq> []" "set (us @ [w]) \<subseteq> set words" using us(2) assms(2) by simp_all
  ultimately show ?thesis unfolding packedLine_def by blast
qed

lemma softTruncate_line:
  assumes good: "\<forall>w\<in>set words. w \<noteq> [] \<and> CHR '' '' \<notin> set w" and mc: "0 \<le> mc"
    and w: "w \<in> set words" and R: "set R \<subseteq> set words" "R \<noteq> []"
  shows "\<exists>l. softTruncate (w @ '' '' @ Join R) mc = Inr l \<and>
             (packedLine words mc l \<or> cutLine words mc l)"
proof -
  have J: "w @ '' '' @ Join R = Join (w # R)" using R(2) by (simp add: Join_Cons)
  have g: "\<forall>x\<in>set (w # R). x \<noteq> [] \<and> CHR '' '' \<notin> set x"
    using good w R(1) by auto
  have ne: "w # R \<noteq> []" by simp
  from softTruncate_cases [OF g ne mc] obtain l where
    l: "softTruncate (Join (w # R)) mc = Inr l"
    and lc: "(\<exists>k. 0 < k \<and> k \<le> length (w # R) \<and> l = Join (take k (w # R)) \<and>
                int (length l) \<le> mc) \<or>
             (int (length l) = mc \<and> CHR '' '' \<notin> set l \<and> prefix l (hd (w # R)))"
    by blast
  from lc have "packedLine words mc l \<or> cutLine words mc l"
  proof
    assume "\<exists>k. 0 < k \<and> k \<le> length (w # R) \<and> l = Join (take k (w # R)) \<and> int (length l) \<le> mc"
    then obtain k where k: "0 < k" "l = Join (take k (w # R))" "int (length l) \<le> mc"
      by blast
    have a: "take k (w # R) \<noteq> []" using k(1) by simp
    have "set (take k (w # R)) \<subseteq> set (w # R)" by (rule set_take_subset)
    also have "\<dots> \<subseteq> set words" using w R(1) by simp
    finally have b: "set (take k (w # R)) \<subseteq> set words" .
    have "packedLine words mc l"
      unfolding packedLine_def using a b k(2,3) by blast
    then show ?thesis ..
  next
    assume c: "int (length l) = mc \<and> CHR '' '' \<notin> set l \<and> prefix l (hd (w # R))"
    then have "prefix l w" by simp
    with c w have "cutLine words mc l" unfolding cutLine_def by blast
    then show ?thesis ..
  qed
  with l J show ?thesis by simp
qed

lemma wrapLoop_lines:
  assumes good: "\<forall>w\<in>set words. w \<noteq> [] \<and> CHR '' '' \<notin> set w" and mc: "0 \<le> mc"
  shows "set ws \<subseteq> set words \<Longrightarrow>
    \<forall>l\<in>set lines. packedLine words mc l \<or> cutLine words mc l \<Longrightarrow>
    cur = [] \<or> packedLine words mc cur \<Longrightarrow>
    wrapLoop words mc ml lines cur ws = Inr out \<Longrightarrow>
    \<forall>l\<in>set out. packedLine words mc l \<or> cutLine words mc l"
proof (induction ws arbitrary: lines cur)
  case Nil
  from Nil.prems(4) have "set out \<subseteq> set (if cur \<noteq> [] then lines @ [cur] else lines)"
    using capLines_subset by simp
  then show ?case using Nil.prems(2,3) by (auto split: if_splits)
next
  case (Cons w ws)
  have w: "w \<in> set words" "w \<noteq> []" and ws: "set ws \<subseteq> set words"
    using Cons.prems(1) good by auto
  have single: "w = [] \<or> packedLine words mc w"
    using w(1) packedLine_single by blast
  show ?case
  proof (cases "cur = []")
    case True
    with Cons.prems(4) have "wrapLoop words mc ml lines w ws = Inr out" by simp
    from Cons.IH [OF ws Cons.prems(2) single this] show ?thesis .
  next
    case cur: False
    with Cons.prems(3) have pc: "packedLine words mc cur" by simp
    show ?thesis
    proof (cases "int (length cur) + 1 + int (length w) \<le> mc")
      case True
      with cur Cons.prems(4) have r: "wrapLoop words mc ml lines (cur @ '' '' @ w) ws = Inr out"
        by simp
      have "cur @ '' '' @ w = [] \<or> packedLine words mc (cur @ '' '' @ w)"
        using packedLine_extend [OF pc w(1) True] by blast
      from Cons.IH [OF ws Cons.prems(2) this r] show ?thesis .
    next
      case False
      have lines': "\<forall>l\<in>set (lines @ [cur]). packedLine words mc l \<or> cutLine words mc l"
        using Cons.prems(2) pc by simp
      show ?thesis
      proof (cases "int (length (lines @ [cur])) = ml - 1")
        case F3: False
        with cur False Cons.prems(4) have r: "wrapLoop words mc ml (lines @ [cur]) w ws = Inr out"
          by (simp add: Let_def)
        from Cons.IH [OF ws lines' single r] show ?thesis .
      next
        case True
        let ?R = "wordsJoinRemaining words w"
        have R: "set ?R \<subseteq> set words"
          using wordsJoinRemainingLoop_subset by (simp add: wordsJoinRemaining_def)
        show ?thesis
        proof (cases "Join ?R = []")
          case T2: True
          with cur False True Cons.prems(4) have "capLines (lines @ [cur]) ml = Inr out"
            by (simp add: Let_def)
          then have "set out \<subseteq> set (lines @ [cur])" by (rule capLines_subset)
          with lines' show ?thesis by blast
        next
          case F2: False
          then have Rne: "?R \<noteq> []" by auto
          from softTruncate_line [OF good mc w(1) R Rne] obtain l where
            l: "softTruncate (w @ '' '' @ Join ?R) mc = Inr l"
            and okl: "packedLine words mc l \<or> cutLine words mc l" by blast
          have "capLines ((lines @ [cur]) @ [l]) ml = Inr out"
            using cur False True F2 Cons.prems(4) l w(2) by (simp add: Let_def)
          then have "set out \<subseteq> set ((lines @ [cur]) @ [l])" by (rule capLines_subset)
          moreover have "\<forall>x\<in>set ((lines @ [cur]) @ [l]). packedLine words mc x \<or> cutLine words mc x"
            using lines' okl by simp
          ultimately show ?thesis by blast
        qed
      qed
    qed
  qed
qed

lemma Join_no_space_single:
  "us \<noteq> [] \<Longrightarrow> CHR '' '' \<notin> set (Join us) \<Longrightarrow> \<exists>w. us = [w]"
  by (induction us rule: Join.induct) simp_all

lemma wrapWords_lines:
  assumes mc: "0 \<le> mc" and r: "wrapWords s mc ml = Inr lines"
  shows "\<forall>l\<in>set lines. packedLine (Fields s) mc l \<or> cutLine (Fields s) mc l"
proof -
  have good: "\<forall>w\<in>set (Fields s). w \<noteq> [] \<and> CHR '' '' \<notin> set w"
    using Fields_good Fields_no_space by blast
  have e: "\<forall>l\<in>set ([] :: string list). packedLine (Fields s) mc l \<or> cutLine (Fields s) mc l"
    by simp
  have c: "([] :: string) = [] \<or> packedLine (Fields s) mc []" by simp
  have "wrapLoop (Fields s) mc ml [] [] (Fields s) = Inr lines"
    using r by (simp add: wrapWords_def fieldsPreservePunct_def Let_def)
  from wrapLoop_lines [OF good mc subset_refl e c this] show ?thesis .
qed

text \<open>
  Claim C6. For positive \<open>maxChars\<close> and \<open>maxLines\<close> the wrapper returns lines such that:
  every line has at most \<open>maxChars\<close> bytes or is a single word of the text, without a
  space, that is longer than \<open>maxChars\<close>; every line that contains a space is made of
  whole words of the text joined by single spaces (no piece of a split word stands next to
  a space); a line without a space is a whole word of the text or the hard cut, the first
  \<open>maxChars\<close> bytes of a word; and there are at most \<open>maxLines\<close> lines.
\<close>

theorem wrapWords_invariants:
  assumes "0 < mc" "0 < ml"
  shows "\<exists>lines. wrapWords s mc ml = Inr lines \<and>
     (\<forall>l\<in>set lines. int (length l) \<le> mc \<or>
        (l \<in> set (fieldsPreservePunct s) \<and> CHR '' '' \<notin> set l \<and> mc < int (length l))) \<and>
     (\<forall>l\<in>set lines. CHR '' '' \<in> set l \<longrightarrow>
        l = Join (Fields l) \<and> set (Fields l) \<subseteq> set (fieldsPreservePunct s)) \<and>
     (\<forall>l\<in>set lines. CHR '' '' \<notin> set l \<longrightarrow>
        l \<in> set (fieldsPreservePunct s) \<or>
        (int (length l) = mc \<and> (\<exists>w\<in>set (fieldsPreservePunct s). prefix l w))) \<and>
     int (length lines) \<le> ml"
proof -
  let ?words = "fieldsPreservePunct s"
  have W: "?words = Fields s" by (simp add: fieldsPreservePunct_def)
  from wrapWords_ok [of mc ml s] assms obtain lines where r: "wrapWords s mc ml = Inr lines"
    by auto
  have kinds: "\<forall>l\<in>set lines. packedLine ?words mc l \<or> cutLine ?words mc l"
    using wrapWords_lines [OF _ r] assms(1) by (simp add: W)
  have len: "int (length lines) \<le> ml"
    using r assms(2) wrapLoop_length [of ?words mc ml "[]" "[]" ?words lines]
    by (simp add: wrapWords_def Let_def)
  have a: "\<forall>l\<in>set lines. int (length l) \<le> mc \<or>
        (l \<in> set ?words \<and> CHR '' '' \<notin> set l \<and> mc < int (length l))"
  proof
    fix l assume "l \<in> set lines"
    with kinds have "packedLine ?words mc l \<or> cutLine ?words mc l" by blast
    then show "int (length l) \<le> mc \<or>
        (l \<in> set ?words \<and> CHR '' '' \<notin> set l \<and> mc < int (length l))"
    proof
      assume "packedLine ?words mc l"
      then obtain us where us: "us \<noteq> []" "set us \<subseteq> set ?words" "l = Join us"
        "int (length l) \<le> mc \<or> length us = 1" unfolding packedLine_def by blast
      show ?thesis
      proof (cases "int (length l) \<le> mc")
        case True
        then show ?thesis by simp
      next
        case False
        with us(4) obtain w where "us = [w]" by (cases us) auto
        with us(2,3) have "l \<in> set ?words" by simp
        then show ?thesis using False Fields_no_space [of l s] by (simp add: W)
      qed
    next
      assume "cutLine ?words mc l"
      then show ?thesis by (simp add: cutLine_def)
    qed
  qed
  have b: "\<forall>l\<in>set lines. CHR '' '' \<in> set l \<longrightarrow>
        l = Join (Fields l) \<and> set (Fields l) \<subseteq> set ?words"
  proof (intro ballI impI)
    fix l assume l: "l \<in> set lines" and sp: "CHR '' '' \<in> set l"
    from l kinds have "packedLine ?words mc l \<or> cutLine ?words mc l" by blast
    with sp have "packedLine ?words mc l" by (auto simp: cutLine_def)
    then obtain us where us: "us \<noteq> []" "set us \<subseteq> set ?words" "l = Join us"
      unfolding packedLine_def by blast
    have "\<forall>w\<in>set us. w \<noteq> [] \<and> (\<forall>c\<in>set w. \<not> isSpace c)"
      using us(2) Fields_good [of _ s] unfolding W by blast
    then have "Fields l = us" unfolding us(3) by (rule Fields_Join)
    with us show "l = Join (Fields l) \<and> set (Fields l) \<subseteq> set ?words" by simp
  qed
  have d: "\<forall>l\<in>set lines. CHR '' '' \<notin> set l \<longrightarrow>
        l \<in> set ?words \<or> (int (length l) = mc \<and> (\<exists>w\<in>set ?words. prefix l w))"
  proof (intro ballI impI)
    fix l assume l: "l \<in> set lines" and sp: "CHR '' '' \<notin> set l"
    from l kinds have "packedLine ?words mc l \<or> cutLine ?words mc l" by blast
    then show "l \<in> set ?words \<or> (int (length l) = mc \<and> (\<exists>w\<in>set ?words. prefix l w))"
    proof
      assume "packedLine ?words mc l"
      then obtain us where us: "us \<noteq> []" "set us \<subseteq> set ?words" "l = Join us"
        unfolding packedLine_def by blast
      from Join_no_space_single [OF us(1)] sp us(3) obtain w where "us = [w]" by blast
      with us(2,3) show ?thesis by simp
    next
      assume "cutLine ?words mc l"
      then show ?thesis by (simp add: cutLine_def)
    qed
  qed
  from r a b d len show ?thesis by blast
qed

theorem wrapWords_invariants_witness:
  "(0 :: int) < 5 \<and> (0 :: int) < 2 \<and>
   wrapWords ''a b c d e f g h'' 5 2 = Inr [''a b c'', ''d e''] \<and>
   fieldsPreservePunct ''a b c d e f g h'' = [''a'', ''b'', ''c'', ''d'', ''e'', ''f'', ''g'', ''h''] \<and>
   Fields ''a b c'' = [''a'', ''b'', ''c''] \<and> Fields ''d e'' = [''d'', ''e''] \<and>
   int (length [''a b c'', ''d e'']) \<le> 2"
proof -
  have w: "wrapWords ''a b c d e f g h'' 5 2 = Inr [''a b c'', ''d e'']"
    by code_simp
  have f: "fieldsPreservePunct ''a b c d e f g h'' = [''a'', ''b'', ''c'', ''d'', ''e'', ''f'', ''g'', ''h'']"
    "Fields ''a b c'' = [''a'', ''b'', ''c'']" "Fields ''d e'' = [''d'', ''e'']"
    by code_simp+
  show ?thesis
    using wrapWords_invariants [of 5 2 "''a b c d e f g h''"] w f by simp
qed

subsection \<open>The remainder rule of the wrapper\<close>

text \<open>
  Claim C1. The program at two inputs. With \<open>maxChars = 3\<close> and \<open>maxLines = 2\<close> the text
  \<^verbatim>\<open>aaa bbb\<close> completes its first line with \<^verbatim>\<open>bbb\<close> still to be placed; the remainder is
  looked up by \<^verbatim>\<open>wordsJoinRemaining\<close>, which returns no word after \<^verbatim>\<open>bbb\<close>, and the word
  is dropped. With \<open>maxChars = 6\<close> and \<open>maxLines = 3\<close> the text \<^verbatim>\<open>a b cccccc a d\<close>
  completes two lines when the second \<^verbatim>\<open>a\<close> is read; \<^verbatim>\<open>wordsJoinRemaining\<close> finds the
  first \<^verbatim>\<open>a\<close>, so the final line is built from \<^verbatim>\<open>a b cccccc a d\<close>, not from the
  remaining \<^verbatim>\<open>a d\<close>: the word \<^verbatim>\<open>b\<close> is written twice and \<^verbatim>\<open>d\<close> is lost, although
  \<^verbatim>\<open>a d\<close> fits.
\<close>

theorem wrapWords_remainder_defect:
  "wrapWords ''aaa bbb'' 3 2 = Inr [''aaa''] \<and>
   wordsJoinRemaining [''aaa'', ''bbb''] ''bbb'' = [] \<and>
   wrapWords ''a b cccccc a d'' 6 3 = Inr [''a b'', ''cccccc'', ''a b''] \<and>
   wordsJoinRemaining [''a'', ''b'', ''cccccc'', ''a'', ''d''] ''a'' = [''b'', ''cccccc'', ''a'', ''d''] \<and>
   softTruncate ''a d'' 6 = Inr ''a d''"
  by (intro conjI; code_simp)

subsection \<open>The merge pass and the configured line budget\<close>

text \<open>
  Claim C2. The program at one input. With \<open>maxChars = 5\<close> and \<open>maxLines = 5\<close>, a cue of
  0.3 seconds is merged with its successor; the lines of the merged cue are wrapped with
  the constants 42 and 2 of \<^verbatim>\<open>mergeShortCues\<close>, not with the configured values, which give
  three lines for the same text.
\<close>

theorem mergeShortCues_ignores_configuration:
  "segmentsToCues [\<lparr>Start = 0, End = 3 / 10, Text = ''hello''\<rparr>,
                   \<lparr>Start = 3 / 10, End = 2, Text = ''world again''\<rparr>] 5 5
     = Inr [\<lparr>Idx = 1, CStart = 0, CEnd = 2, Lines = [''hello world again''],
             RawText = ''hello world again''\<rparr>] \<and>
   wrapWords ''hello world again'' 5 5 = Inr [''hello'', ''world'', ''again'']"
  by (intro conjI; code_simp)

end
